theory Spec2Isabelle
  imports Main "HOL-Library.Word"
begin

unbundle bit_operations_syntax

section \<open>Data model\<close>

text \<open>
  The script \<^verbatim>\<open>scripts/patch_wasm_table.py\<close> works on Python \<^verbatim>\<open>bytes\<close>: a sequence of
  8-bit values. Offsets, counts and decoded values are Python integers that never become
  negative here, so they are natural numbers. A file system is a map from paths to the
  bytes stored under them; \<^verbatim>\<open>write_bytes\<close> is assumed to succeed.
\<close>

type_synonym byte = "8 word"
type_synonym bytes = "byte list"
type_synonym path = string
type_synonym fs = "path \<rightharpoonup> bytes"

text \<open>
  Every \<^verbatim>\<open>raise\<close> of the script and the two implicit exceptions it can run into
  (\<^verbatim>\<open>IndexError\<close> on \<^verbatim>\<open>data[p]\<close>, \<^verbatim>\<open>OSError\<close> on reading a missing file) are
  values of one type. The first six are the \<^verbatim>\<open>ValueError\<close>s, named after their messages.
\<close>

datatype error =
    UnexpectedEOF
  | VaruintTooLarge
  | ValueDoesNotFit
  | NotAWasmModule path
  | InvalidSectionSize path
  | TableSectionTruncated
  | IndexError
  | OSError path

section \<open>Variable-width integer codec\<close>

text \<open>
  \<^verbatim>\<open>_read_varuint(data, off)\<close>: the \<^verbatim>\<open>while True\<close> loop with its three local
  variables \<^verbatim>\<open>res\<close>, \<^verbatim>\<open>shift\<close>, \<^verbatim>\<open>n\<close>. Each iteration reads one more byte, so
  the distance to the end of the buffer decreases.
\<close>

function read_varuint_loop :: "bytes \<Rightarrow> nat \<Rightarrow> nat \<Rightarrow> nat \<Rightarrow> nat \<Rightarrow> error + nat \<times> nat" where
  "read_varuint_loop data off res shift n =
     (if off + n \<ge> length data then Inl UnexpectedEOF
      else
        let b = unat (data ! (off + n));
            n' = n + 1;
            res' = res OR push_bit shift (b AND 0x7F)
        in if b AND 0x80 = 0 then Inr (res', n')
           else
             let shift' = shift + 7
             in if shift' > 35 then Inl VaruintTooLarge
                else read_varuint_loop data off res' shift' n')"
  by pat_completeness auto
termination
  by (relation "measure (\<lambda>(data, off, res, shift, n). length data - (off + n))") auto

declare read_varuint_loop.simps [simp del]

definition read_varuint :: "bytes \<Rightarrow> nat \<Rightarrow> error + nat \<times> nat" where
  "read_varuint data off = read_varuint_loop data off 0 0 0"

text \<open>
  \<^verbatim>\<open>_encode_varuint_fixed_width(value, width)\<close>: the \<^verbatim>\<open>for i in range(width)\<close> loop
  runs over the list of indices; it carries the shrinking \<^verbatim>\<open>value\<close> and the growing
  \<^verbatim>\<open>out\<close>. The check for residual bits comes after the loop.
\<close>

fun encode_loop :: "nat \<Rightarrow> nat list \<Rightarrow> nat \<Rightarrow> bytes \<Rightarrow> nat \<times> bytes" where
  "encode_loop width [] val out = (val, out)"
| "encode_loop width (i # is) val out =
     (let byte = val AND 0x7F;
          val' = drop_bit 7 val;
          byte' = (if i \<noteq> width - 1 then byte OR 0x80 else byte)
      in encode_loop width is val' (out @ [of_nat byte']))"

definition encode_varuint_fixed_width :: "nat \<Rightarrow> nat \<Rightarrow> error + bytes" where
  "encode_varuint_fixed_width val width =
     (case encode_loop width [0..<width] val [] of
        (val', out) \<Rightarrow> if val' \<noteq> 0 then Inl ValueDoesNotFit else Inr out)"

text \<open>
  The bytes the encoder emits for the low \<open>k\<close> seven-bit groups of \<open>v\<close>, least significant
  group first, every byte but the last with the continuation bit. This is the closed form
  of the loop above (lemma \<open>encode_varuint_fixed_width_eq\<close>), used to state what a patched
  field holds.
\<close>

primrec varuint_bytes :: "nat \<Rightarrow> nat \<Rightarrow> bytes" where
  "varuint_bytes 0 v = []"
| "varuint_bytes (Suc k) v =
     of_nat (if k \<noteq> 0 then (v AND 0x7F) OR 0x80 else v AND 0x7F) # varuint_bytes k (drop_bit 7 v)"

section \<open>Byte access and in-place replacement\<close>

text \<open>
  \<^verbatim>\<open>data[i]\<close> raises \<^verbatim>\<open>IndexError\<close> past the end. The slice assignment
  \<^verbatim>\<open>mutable[a:b] = enc\<close> (with \<open>0 \<le> a \<le> b\<close>) replaces the bytes from \<open>a\<close> up to \<open>b\<close>,
  both clamped to the length, by \<open>enc\<close>.
\<close>

definition byte_at :: "bytes \<Rightarrow> nat \<Rightarrow> error + nat" where
  "byte_at data i = (if i < length data then Inr (unat (data ! i)) else Inl IndexError)"

definition assign_slice :: "bytes \<Rightarrow> nat \<Rightarrow> nat \<Rightarrow> bytes \<Rightarrow> bytes" where
  "assign_slice mutable a b enc = take a mutable @ enc @ drop b mutable"

section \<open>Table section (id 4)\<close>

text \<open>
  The state of the loop over the tables: the cursor \<^verbatim>\<open>p\<close>, the buffer \<^verbatim>\<open>mutable\<close>,
  \<^verbatim>\<open>externref_table_index\<close> and \<^verbatim>\<open>patched\<close>. The descriptors are always read from
  \<^verbatim>\<open>data\<close>, the patches go to \<^verbatim>\<open>mutable\<close>.
\<close>

type_synonym table_state = "nat \<times> bytes \<times> nat option \<times> bool"

definition table_entry :: "bytes \<Rightarrow> nat \<Rightarrow> nat \<Rightarrow> table_state \<Rightarrow> error + table_state" where
  "table_entry data payload_end table_idx s =
     (case s of (p, mutable, externref_table_index, patched) \<Rightarrow>
      if p \<ge> payload_end then Inl TableSectionTruncated
      else
        case byte_at data p of Inl e \<Rightarrow> Inl e | Inr elem_type \<Rightarrow>
        case read_varuint data (p + 1) of Inl e \<Rightarrow> Inl e | Inr (flags, n) \<Rightarrow>
        case read_varuint data (p + 1 + n) of Inl e \<Rightarrow> Inl e | Inr (initial, n') \<Rightarrow>
        let p3 = p + 1 + n + n';
            has_max = (flags AND 0x01 \<noteq> 0)
        in
        case (if has_max
              then (case read_varuint data p3 of Inl e \<Rightarrow> Inl e
                    | Inr (max_val, max_n) \<Rightarrow> Inr (Some (p3, max_val, max_n), p3 + max_n))
              else Inr (None, p3)) of
          Inl e \<Rightarrow> Inl e
        | Inr (mx, p4) \<Rightarrow>
            let ext' = (if elem_type = 0x6F \<and> externref_table_index = None
                        then Some table_idx else externref_table_index)
            in
            (case mx of
               None \<Rightarrow> Inr (p4, mutable, ext', patched)
             | Some (max_off, max_val, max_n) \<Rightarrow>
                 if elem_type = 0x6F \<and> has_max \<and> max_val < initial + 4
                 then
                   (case encode_varuint_fixed_width (push_bit (7 * max_n) 1 - 1) max_n of
                      Inl e \<Rightarrow> Inl e
                    | Inr enc \<Rightarrow>
                        Inr (p4, assign_slice mutable max_off (max_off + max_n) enc, ext', True))
                 else Inr (p4, mutable, ext', patched)))"

text \<open>
  \<^verbatim>\<open>for table_idx in range(table_count)\<close>: the fourth argument counts the iterations
  that remain, the third is \<^verbatim>\<open>table_idx\<close>.
\<close>

fun table_loop :: "bytes \<Rightarrow> nat \<Rightarrow> nat \<Rightarrow> nat \<Rightarrow> table_state \<Rightarrow> error + table_state" where
  "table_loop data payload_end table_idx 0 s = Inr s"
| "table_loop data payload_end table_idx (Suc k) s =
     (case table_entry data payload_end table_idx s of
        Inl e \<Rightarrow> Inl e
      | Inr s' \<Rightarrow> table_loop data payload_end (Suc table_idx) k s')"

definition table_section ::
  "bytes \<Rightarrow> nat \<Rightarrow> nat \<Rightarrow> nat option \<Rightarrow> bool \<Rightarrow> error + bytes \<times> nat option \<times> bool" where
  "table_section data payload_off payload_end externref_table_index patched =
     (case read_varuint data payload_off of
        Inl e \<Rightarrow> Inl e
      | Inr (table_count, n) \<Rightarrow>
          (case table_loop data payload_end 0 table_count
                  (payload_off + n, data, externref_table_index, patched) of
             Inl e \<Rightarrow> Inl e
           | Inr (p, mutable, ext', patched') \<Rightarrow> Inr (mutable, ext', patched')))"

section \<open>Export section (id 7)\<close>

text \<open>
  The export name is compared after \<^verbatim>\<open>decode("utf-8", "replace")\<close>. The identifier is
  plain ASCII, a malformed byte decodes to U+FFFD and a well-formed multi-byte sequence to
  a character outside ASCII, so the decoded name equals the identifier exactly when the
  raw bytes are the identifier's ASCII bytes. The model compares the raw bytes.
\<close>

definition wbindgen_externrefs :: bytes where
  "wbindgen_externrefs = map (\<lambda>c. of_nat (of_char c)) ''__wbindgen_externrefs''"

type_synonym export_state = "nat \<times> bytes \<times> bool"

definition export_entry :: "bytes \<Rightarrow> nat \<Rightarrow> export_state \<Rightarrow> error + export_state" where
  "export_entry data externref_table_index s =
     (case s of (p, mutable, patched) \<Rightarrow>
      case read_varuint data p of Inl e \<Rightarrow> Inl e | Inr (name_len, n) \<Rightarrow>
      let name = take name_len (drop (p + n) data);
          p2 = p + n + name_len
      in
      case byte_at data p2 of Inl e \<Rightarrow> Inl e | Inr kind \<Rightarrow>
      let idx_off = p2 + 1 in
      case read_varuint data idx_off of Inl e \<Rightarrow> Inl e | Inr (idx_val, idx_n) \<Rightarrow>
      if name = wbindgen_externrefs \<and> kind = 1 \<and> idx_val \<noteq> externref_table_index
      then
        (case encode_varuint_fixed_width externref_table_index idx_n of
           Inl e \<Rightarrow> Inl e
         | Inr enc \<Rightarrow>
             Inr (idx_off + idx_n, assign_slice mutable idx_off (idx_off + idx_n) enc, True))
      else Inr (idx_off + idx_n, mutable, patched))"

fun export_loop :: "bytes \<Rightarrow> nat \<Rightarrow> nat \<Rightarrow> export_state \<Rightarrow> error + export_state" where
  "export_loop data externref_table_index 0 s = Inr s"
| "export_loop data externref_table_index (Suc k) s =
     (case export_entry data externref_table_index s of
        Inl e \<Rightarrow> Inl e
      | Inr s' \<Rightarrow> export_loop data externref_table_index k s')"

definition export_section ::
  "bytes \<Rightarrow> nat \<Rightarrow> nat \<Rightarrow> bool \<Rightarrow> error + bytes \<times> bool" where
  "export_section data payload_off externref_table_index patched =
     (case read_varuint data payload_off of
        Inl e \<Rightarrow> Inl e
      | Inr (export_count, n) \<Rightarrow>
          (case export_loop data externref_table_index export_count
                  (payload_off + n, data, patched) of
             Inl e \<Rightarrow> Inl e
           | Inr (p, mutable, patched') \<Rightarrow> Inr (mutable, patched')))"

section \<open>Section walker\<close>

text \<open>
  The state of the \<^verbatim>\<open>while off < len(data)\<close> loop of \<^verbatim>\<open>patch_wasm_file\<close>:
  \<^verbatim>\<open>data\<close>, \<^verbatim>\<open>off\<close>, \<^verbatim>\<open>patched\<close> and \<^verbatim>\<open>externref_table_index\<close>.
\<close>

type_synonym walk_state = "bytes \<times> nat \<times> bool \<times> nat option"

text \<open>
  The end of an iteration that handled a table or export section:
  \<^verbatim>\<open>if patched: data = bytes(mutable); path.write_bytes(data)\<close>, then
  \<^verbatim>\<open>off = payload_end\<close>.
\<close>

definition finish_section ::
  "path \<Rightarrow> fs \<Rightarrow> bytes \<Rightarrow> bytes \<Rightarrow> nat \<Rightarrow> bool \<Rightarrow> nat option \<Rightarrow> fs \<times> (error + walk_state)" where
  "finish_section path fs data mutable payload_end patched externref_table_index =
     (if patched
      then (fs(path \<mapsto> mutable), Inr (mutable, payload_end, patched, externref_table_index))
      else (fs, Inr (data, payload_end, patched, externref_table_index)))"

text \<open>
  One iteration of the loop. A section is either the table section or the export section,
  so the two consecutive \<^verbatim>\<open>if section_id == ...\<close> blocks are one case distinction.
\<close>

definition walk_step :: "path \<Rightarrow> fs \<Rightarrow> walk_state \<Rightarrow> fs \<times> (error + walk_state)" where
  "walk_step path fs st =
     (case st of (data, off, patched, externref_table_index) \<Rightarrow>
      case byte_at data off of Inl e \<Rightarrow> (fs, Inl e) | Inr section_id \<Rightarrow>
      case read_varuint data (off + 1) of Inl e \<Rightarrow> (fs, Inl e) | Inr (section_size, n) \<Rightarrow>
      let payload_off = off + 1 + n;
          payload_end = payload_off + section_size
      in
      if payload_end > length data then (fs, Inl (InvalidSectionSize path))
      else if section_id \<noteq> 4 \<and> section_id \<noteq> 7
      then (fs, Inr (data, payload_end, patched, externref_table_index))
      else if section_id = 4
      then
        (case table_section data payload_off payload_end externref_table_index patched of
           Inl e \<Rightarrow> (fs, Inl e)
         | Inr (mutable, ext', patched') \<Rightarrow>
             finish_section path fs data mutable payload_end patched' ext')
      else
        (case externref_table_index of
           None \<Rightarrow> (fs, Inr (data, payload_end, patched, externref_table_index))
         | Some ext \<Rightarrow>
             (case export_section data payload_off ext patched of
                Inl e \<Rightarrow> (fs, Inl e)
              | Inr (mutable, patched') \<Rightarrow>
                  finish_section path fs data mutable payload_end patched' externref_table_index)))"

section \<open>Facts about the codec\<close>

lemma low7: "(v::nat) AND 0x7F = v mod 128"
proof -
  have "v AND mask 7 = take_bit 7 v" by (simp add: take_bit_eq_mask)
  then show ?thesis by (simp add: take_bit_eq_mod mask_eq_exp_minus_1)
qed

lemma or_push_add: "(a::nat) < 2 ^ n \<Longrightarrow> a OR push_bit n b = a + b * 2 ^ n"
proof -
  assume a: "a < 2 ^ n"
  then have ta: "take_bit n a = a" by (rule take_bit_nat_eq_self)
  have "a AND push_bit n b = 0"
  proof (rule bit_eqI)
    fix k
    have "\<not> (bit (take_bit n a) k \<and> bit (push_bit n b) k)"
      by (auto simp add: bit_take_bit_iff bit_push_bit_iff)
    then show "bit (a AND push_bit n b) k = bit (0::nat) k"
      using ta by (simp add: bit_and_iff)
  qed
  then have "a + push_bit n b = a OR push_bit n b" by (rule disjunctive_add_eq_or)
  then show ?thesis by (simp add: push_bit_eq_mult)
qed

lemma or128: "(x::nat) < 128 \<Longrightarrow> x OR 0x80 = x + 128"
  using or_push_add[of x 7 1] by simp

lemma and128: "((b::nat) AND 0x80 = 0) = even (b div 128)"
proof -
  have "(b AND 2 ^ 7 = 0) = (\<not> bit b 7)" by (rule and_exp_eq_0_iff_not_bit)
  then show ?thesis by (simp add: bit_iff_odd_drop_bit drop_bit_eq_div)
qed

lemma and128_byte: "(b::nat) < 256 \<Longrightarrow> (b AND 0x80 = 0) = (b < 128)"
proof -
  assume "b < 256"
  then have "b div 128 = 0 \<or> b div 128 = 1" by arith
  then show ?thesis by (auto simp add: and128)
qed

lemma length_varuint_bytes [simp]: "length (varuint_bytes k v) = k"
  by (induction k arbitrary: v) auto

lemma encode_loop_upt:
  "i \<le> w \<Longrightarrow> encode_loop w [i..<w] v out = (drop_bit (7 * (w - i)) v, out @ varuint_bytes (w - i) v)"
proof (induction "w - i" arbitrary: i v out)
  case 0
  then show ?case by simp
next
  case (Suc k)
  then have lt: "i < w" and k: "w - Suc i = k" and wi: "w - i = Suc k" by auto
  have neq: "(i \<noteq> w - 1) = (k \<noteq> 0)" using lt k by auto
  have "[i..<w] = i # [Suc i..<w]" using lt by (simp add: upt_conv_Cons)
  then show ?case
    using Suc.hyps(1)[of "Suc i" "drop_bit 7 v"] lt k wi neq
    by (simp add: Let_def drop_bit_drop_bit add.commute)
qed

lemma encode_varuint_fixed_width_eq:
  "encode_varuint_fixed_width v w =
     (if v < 2 ^ (7 * w) then Inr (varuint_bytes w v) else Inl ValueDoesNotFit)"
proof -
  have "(drop_bit (7 * w) v = 0) = (v < 2 ^ (7 * w))"
    by (simp add: drop_bit_eq_div div_eq_0_iff)
  then show ?thesis
    using encode_loop_upt[of 0 w v "[]"] by (auto simp add: encode_varuint_fixed_width_def)
qed

lemma unat_of_nat_byte: "n < 256 \<Longrightarrow> unat (of_nat n :: byte) = n"
  by (simp add: unat_of_nat)

lemma unat_cont_byte: "unat (of_nat ((v AND 0x7F) OR 0x80) :: byte) = v mod 128 + 128"
proof -
  have lt: "v mod 128 < 128" by simp
  then have eq: "(v AND 0x7F) OR 0x80 = v mod 128 + 128" by (simp add: low7 or128)
  have "v mod 128 + 128 < 256" using lt by arith
  then show ?thesis unfolding eq by (rule unat_of_nat_byte)
qed

lemma drop_eq_ConsD:
  "drop i xs = y # ys \<Longrightarrow> i < length xs \<and> xs ! i = y \<and> drop (Suc i) xs = ys"
proof -
  assume d: "drop i xs = y # ys"
  then have lt: "i < length xs" by (cases "i < length xs") auto
  from Cons_nth_drop_Suc[OF lt] d show ?thesis using lt by simp
qed

lemma unat_last_byte: "unat (of_nat (v AND 0x7F) :: byte) = v mod 128"
  by (simp add: low7 unat_of_nat)

lemma read_loop_varuint_bytes:
  "v < 2 ^ (7 * Suc k) \<Longrightarrow> n + Suc k \<le> 6 \<Longrightarrow> shift = 7 * n \<Longrightarrow> res < 2 ^ shift \<Longrightarrow>
   drop (off + n) data = varuint_bytes (Suc k) v @ post \<Longrightarrow>
   read_varuint_loop data off res shift n = Inr (res + v * 2 ^ shift, n + Suc k)"
proof (induction k arbitrary: v n res shift post)
  case 0
  from 0(5) have "drop (off + n) data = of_nat (v AND 0x7F) # post" by simp
  from drop_eq_ConsD[OF this] have len: "off + n < length data"
    and "data ! (off + n) = of_nat (v AND 0x7F)" by simp_all
  then have b: "unat (data ! (off + n)) = v mod 128" by (simp only: unat_last_byte)
  have v: "v < 128" using 0(1) by simp
  then have b': "unat (data ! (off + n)) = v" using b by simp
  show ?case
    using len b' v 0(4) 
    by (subst read_varuint_loop.simps) (simp add: Let_def low7 and128_byte or_push_add)
next
  case (Suc k)
  from Suc(6) have "drop (off + n) data =
      of_nat ((v AND 0x7F) OR 0x80) # (varuint_bytes (Suc k) (drop_bit 7 v) @ post)" by simp
  from drop_eq_ConsD[OF this] have len: "off + n < length data"
    and b0: "data ! (off + n) = of_nat ((v AND 0x7F) OR 0x80)"
    and d: "drop (off + (n + 1)) data = varuint_bytes (Suc k) (drop_bit 7 v) @ post" by simp_all
  from b0 have b: "unat (data ! (off + n)) = v mod 128 + 128" by (simp only: unat_cont_byte)
  have v': "drop_bit 7 v < 2 ^ (7 * Suc k)"
  proof -
    have e: "7 * Suc (Suc k) = 7 * Suc k + 7" by simp
    have "(2::nat) ^ (7 * Suc (Suc k)) = 2 ^ (7 * Suc k) * 2 ^ 7"
      unfolding e by (rule power_add)
    with Suc(2) have "v < 2 ^ (7 * Suc k) * 2 ^ 7" by (simp only:)
    then have "v div 2 ^ 7 < 2 ^ (7 * Suc k)" by (rule less_mult_imp_div_less)
    then show ?thesis by (simp add: drop_bit_eq_div)
  qed
  have r': "res + v mod 128 * 2 ^ shift < 2 ^ (shift + 7)"
  proof -
    have "v mod 128 \<le> 127" by (simp add: Suc_leI)
    then have "v mod 128 * 2 ^ shift \<le> 127 * 2 ^ shift" by (rule mult_le_mono1)
    moreover have "(2::nat) ^ (shift + 7) = 128 * 2 ^ shift" by (simp add: power_add)
    ultimately show ?thesis using Suc(5) by linarith
  qed
  have ih: "read_varuint_loop data off (res + v mod 128 * 2 ^ shift) (shift + 7) (n + 1)
     = Inr (res + v mod 128 * 2 ^ shift + drop_bit 7 v * 2 ^ (shift + 7), n + 1 + Suc k)"
    using Suc.IH[OF v' _ _ r' d] Suc(3) Suc(4) by simp
  have sum: "v mod 128 * 2 ^ shift + drop_bit 7 v * 2 ^ (shift + 7) = v * 2 ^ shift"
  proof -
    have "v = drop_bit 7 v * 128 + v mod 128" by (simp add: drop_bit_eq_div)
    then have "v * 2 ^ shift = (drop_bit 7 v * 128 + v mod 128) * 2 ^ shift" by simp
    then show ?thesis by (simp add: power_add algebra_simps)
  qed
  have b128: "(v mod 128 + 128) mod 128 = v mod 128" by simp
  have cont: "\<not> (v mod 128 + 128) AND 0x80 = 0"
    using and128_byte[of "v mod 128 + 128"] by simp
  have sh: "\<not> shift + 7 > 35" using Suc(3) Suc(4) by simp
  show ?case
    using len b cont sh ih sum Suc(5) b128
    by (subst read_varuint_loop.simps) (simp add: Let_def low7 or_push_add add.assoc)
qed

lemma read_varuint_loop_bounds:
  "read_varuint_loop data off res shift n = Inr (v, n') \<Longrightarrow> shift \<le> 35 \<Longrightarrow>
   n < n' \<and> off + n' \<le> length data \<and> shift + 7 * (n' - n) \<le> 42"
proof (induction data off res shift n rule: read_varuint_loop.induct)
  case (1 data off res shift n)
  show ?case
  proof (cases "off + n \<ge> length data")
    case True
    with "1.prems" show ?thesis by (subst (asm) read_varuint_loop.simps) simp
  next
    case False
    define b where "b = unat (data ! (off + n))"
    define res' where "res' = res OR push_bit shift (b AND 0x7F)"
    show ?thesis
    proof (cases "b AND 0x80 = 0")
      case True
      with False "1.prems" have "n' = n + 1"
        by (subst (asm) read_varuint_loop.simps) (simp add: Let_def b_def)
      then show ?thesis using False "1.prems"(2) by simp
    next
      case cont: False
      show ?thesis
      proof (cases "shift + 7 > 35")
        case True
        with False cont "1.prems" show ?thesis
          by (subst (asm) read_varuint_loop.simps) (simp add: Let_def b_def)
      next
        case small: False
        with False cont "1.prems"
        have rec: "read_varuint_loop data off res' (shift + 7) (n + 1) = Inr (v, n')"
          by (subst (asm) read_varuint_loop.simps) (simp add: Let_def b_def res'_def)
        have "n + 1 < n' \<and> off + n' \<le> length data \<and> shift + 7 + 7 * (n' - (n + 1)) \<le> 42"
          using "1.IH"[OF False b_def refl res'_def cont refl small rec] small by simp
        then show ?thesis by auto
      qed
    qed
  qed
qed

lemma read_varuint_bounds:
  "read_varuint data off = Inr (v, n) \<Longrightarrow> 1 \<le> n \<and> n \<le> 6 \<and> off + n \<le> length data"
  using read_varuint_loop_bounds[of data off 0 0 0 v n] by (simp add: read_varuint_def)

text \<open>The result of a read depends only on the bytes it consumed.\<close>

lemma read_varuint_loop_local:
  "read_varuint_loop data off res shift n = Inr (v, n') \<Longrightarrow>
   off + n' \<le> length data' \<Longrightarrow>
   (\<And>k. n \<le> k \<Longrightarrow> k < n' \<Longrightarrow> data' ! (off + k) = data ! (off + k)) \<Longrightarrow>
   read_varuint_loop data' off res shift n = Inr (v, n')"
proof (induction data off res shift n rule: read_varuint_loop.induct)
  case (1 data off res shift n)
  show ?case
  proof (cases "off + n \<ge> length data")
    case True
    with "1.prems" show ?thesis by (subst (asm) read_varuint_loop.simps) simp
  next
    case False
    define b where "b = unat (data ! (off + n))"
    define res' where "res' = res OR push_bit shift (b AND 0x7F)"
    show ?thesis
    proof (cases "b AND 0x80 = 0")
      case True
      with False "1.prems"(1) have eq: "n' = n + 1" "v = res'"
        by (subst (asm) read_varuint_loop.simps, simp add: Let_def b_def res'_def)+
      have "data' ! (off + n) = data ! (off + n)" using "1.prems"(3)[of n] eq by simp
      then show ?thesis using eq True "1.prems"(2)
        by (subst read_varuint_loop.simps) (simp add: Let_def b_def res'_def)
    next
      case cont: False
      show ?thesis
      proof (cases "shift + 7 > 35")
        case True
        with False cont "1.prems" show ?thesis
          by (subst (asm) read_varuint_loop.simps) (simp add: Let_def b_def)
      next
        case small: False
        with False cont "1.prems"
        have rec: "read_varuint_loop data off res' (shift + 7) (n + 1) = Inr (v, n')"
          by (subst (asm) read_varuint_loop.simps) (simp add: Let_def b_def res'_def)
        have lt: "n + 1 < n'"
          using read_varuint_loop_bounds[OF rec] small by simp
        have ih: "read_varuint_loop data' off res' (shift + 7) (n + 1) = Inr (v, n')"
          using "1.IH"[OF False b_def refl res'_def cont refl small rec "1.prems"(2)] "1.prems"(3)
          by simp
        have "data' ! (off + n) = data ! (off + n)" using "1.prems"(3)[of n] lt by simp
        then show ?thesis using ih cont small lt "1.prems"(2)
          by (subst read_varuint_loop.simps) (simp add: Let_def b_def res'_def)
      qed
    qed
  qed
qed

lemma read_varuint_local:
  "read_varuint data off = Inr (v, n) \<Longrightarrow> off + n \<le> length data' \<Longrightarrow>
   (\<And>k. k < n \<Longrightarrow> data' ! (off + k) = data ! (off + k)) \<Longrightarrow>
   read_varuint data' off = Inr (v, n)"
  unfolding read_varuint_def by (rule read_varuint_loop_local) simp_all

lemma read_varuint_loop_too_large:
  "shift = 7 * n \<Longrightarrow> n \<le> 5 \<Longrightarrow>
   (\<And>k. n \<le> k \<Longrightarrow> k < 6 \<Longrightarrow> off + k < length data \<and> unat (data ! (off + k)) AND 0x80 \<noteq> 0) \<Longrightarrow>
   read_varuint_loop data off res shift n = Inl VaruintTooLarge"
proof (induction "5 - n" arbitrary: n shift res)
  case 0
  then have n: "n = 5" by simp
  from "0.prems"(3)[of 5] n have "off + n < length data" "unat (data ! (off + n)) AND 0x80 \<noteq> 0"
    by simp_all
  then show ?case using n "0.prems"(1)
    by (subst read_varuint_loop.simps) (simp add: Let_def)
next
  case (Suc m)
  then have n: "n < 5" by simp
  from Suc.prems(3)[of n] n have h: "off + n < length data" "unat (data ! (off + n)) AND 0x80 \<noteq> 0"
    by simp_all
  have "read_varuint_loop data off (res OR push_bit shift (unat (data ! (off + n)) AND 0x7F)) (shift + 7) (n + 1)
      = Inl VaruintTooLarge"
    using Suc.hyps(1)[of "n + 1" "shift + 7"] Suc.hyps(2) Suc.prems n by simp
  then show ?case using h n Suc.prems(1)
    by (subst read_varuint_loop.simps) (simp add: Let_def)
qed

section \<open>Facts about the section patchers\<close>

lemma length_assign_slice:
  "length (assign_slice mutable a b enc) = min (length mutable) a + length enc + (length mutable - b)"
  by (simp add: assign_slice_def)

lemma encode_varuint_fixed_width_length:
  "encode_varuint_fixed_width v w = Inr enc \<Longrightarrow> length enc = w"
  by (auto simp add: encode_varuint_fixed_width_eq split: if_splits)

lemma table_entry_length:
  assumes "table_entry data payload_end table_idx (p, mutable, ext, patched) = Inr (p', mutable', ext', patched')"
    and "length mutable = length data"
  shows "length mutable' = length mutable \<and> p < p'"
proof -
  from assms(1) obtain elem_type flags n initial n' where
    r1: "read_varuint data (p + 1) = Inr (flags, n)" and
    r2: "read_varuint data (p + 1 + n) = Inr (initial, n')"
    by (auto simp add: table_entry_def split: if_splits sum.splits)
  show ?thesis
  proof (cases "flags AND 1 \<noteq> 0")
    case False
    with assms(1) r1 r2 show ?thesis
      by (auto simp add: table_entry_def Let_def split: if_splits sum.splits)
  next
    case True
    with assms(1) r1 r2 obtain max_val max_n where
      r3: "read_varuint data (p + 1 + n + n') = Inr (max_val, max_n)"
      by (auto simp add: table_entry_def Let_def split: if_splits sum.splits)
    from read_varuint_bounds[OF r3] have b: "p + 1 + n + n' + max_n \<le> length data" by simp
    from assms(1) r1 r2 r3 True b assms(2) show ?thesis
      by (auto simp add: table_entry_def Let_def length_assign_slice
          dest!: encode_varuint_fixed_width_length split: if_splits sum.splits)
  qed
qed

lemma table_loop_length:
  "table_loop data payload_end table_idx k (p, mutable, ext, patched) = Inr (p', mutable', ext', patched') \<Longrightarrow>
   length mutable = length data \<Longrightarrow> length mutable' = length mutable"
proof (induction k arbitrary: table_idx p mutable ext patched)
  case 0
  then show ?case by simp
next
  case (Suc k)
  from Suc.prems(1) obtain p1 m1 e1 pt1 where
    e: "table_entry data payload_end table_idx (p, mutable, ext, patched) = Inr (p1, m1, e1, pt1)"
    and l: "table_loop data payload_end (Suc table_idx) k (p1, m1, e1, pt1) = Inr (p', mutable', ext', patched')"
    by (auto split: sum.splits)
  from table_entry_length[OF e Suc.prems(2)] have "length m1 = length mutable" by simp
  with Suc.IH[OF l] Suc.prems(2) show ?case by simp
qed

lemma table_section_length:
  "table_section data payload_off payload_end ext patched = Inr (mutable, ext', patched') \<Longrightarrow>
   length mutable = length data"
  by (auto simp add: table_section_def split: sum.splits dest: table_loop_length)

lemma export_entry_length:
  assumes "export_entry data ext (p, mutable, patched) = Inr (p', mutable', patched')"
    and "length mutable = length data"
  shows "length mutable' = length mutable"
proof -
  from assms(1) obtain name_len n kind idx_val idx_n where
    r1: "read_varuint data p = Inr (name_len, n)" and
    r3: "read_varuint data (p + n + name_len + 1) = Inr (idx_val, idx_n)"
    by (auto simp add: export_entry_def Let_def split: if_splits sum.splits)
  from read_varuint_bounds[OF r3] have b: "p + n + name_len + 1 + idx_n \<le> length data" by simp
  from assms r1 r3 b show ?thesis
    by (auto simp add: export_entry_def Let_def length_assign_slice
        dest!: encode_varuint_fixed_width_length split: if_splits sum.splits)
qed

lemma export_loop_length:
  "export_loop data ext k (p, mutable, patched) = Inr (p', mutable', patched') \<Longrightarrow>
   length mutable = length data \<Longrightarrow> length mutable' = length mutable"
proof (induction k arbitrary: p mutable patched)
  case 0
  then show ?case by simp
next
  case (Suc k)
  from Suc.prems(1) obtain p1 m1 pt1 where
    e: "export_entry data ext (p, mutable, patched) = Inr (p1, m1, pt1)"
    and l: "export_loop data ext k (p1, m1, pt1) = Inr (p', mutable', patched')"
    by (auto split: sum.splits)
  from export_entry_length[OF e Suc.prems(2)] have "length m1 = length mutable" .
  with Suc.IH[OF l] Suc.prems(2) show ?case by simp
qed

lemma export_section_length:
  "export_section data payload_off ext patched = Inr (mutable, patched') \<Longrightarrow>
   length mutable = length data"
  by (auto simp add: export_section_def split: sum.splits dest: export_loop_length)

lemma walk_step_progress:
  assumes "walk_step path fs (data, off, patched, ext) = (fs', Inr (data', off', patched', ext'))"
  shows "length data' = length data \<and> off < off' \<and> off' \<le> length data"
proof -
  from assms obtain section_size n where
    r: "read_varuint data (off + 1) = Inr (section_size, n)"
    and le: "off + 1 + n + section_size \<le> length data"
    by (auto simp add: walk_step_def Let_def split: if_splits sum.splits)
  from assms r le show ?thesis
    by (auto simp add: walk_step_def Let_def finish_section_def
        split: if_splits sum.splits option.splits
        dest: table_section_length export_section_length)
qed

text \<open>
  The \<^verbatim>\<open>while off < len(data)\<close> loop. Every iteration that does not raise moves
  \<^verbatim>\<open>off\<close> forward and keeps the length of \<^verbatim>\<open>data\<close> (lemma \<open>walk_step_progress\<close>),
  so the loop ends.
\<close>

function walk :: "path \<Rightarrow> fs \<Rightarrow> walk_state \<Rightarrow> fs \<times> (error + bool)" where
  "walk path fs (data, off, patched, externref_table_index) =
     (if off < length data
      then
        (case walk_step path fs (data, off, patched, externref_table_index) of
           (fs', Inl e) \<Rightarrow> (fs', Inl e)
         | (fs', Inr st') \<Rightarrow> walk path fs' st')
      else (fs, Inr patched))"
  by pat_completeness auto
termination walk
proof (relation "measure (\<lambda>(path, fs, data, off, patched, ext). length data - off)")
  show "wf (measure (\<lambda>(path, fs, data, off, patched, ext). length data - off))" by simp
next
  fix path :: path and fs :: fs and data off patched externref_table_index x1 x2 y
  assume lt: "off < length data"
    and "(x1, x2) = walk_step path fs (data, off, patched, externref_table_index)"
    and "x2 = Inr y"
  then have "walk_step path fs (data, off, patched, externref_table_index) = (x1, Inr y)" by simp
  then show "((path, x1, y), path, fs, data, off, patched, externref_table_index)
      \<in> measure (\<lambda>(path, fs, data, off, patched, ext). length data - off)"
    using lt by (cases y) (auto dest!: walk_step_progress)
qed

declare walk.simps [simp del]

section \<open>One file, and the driver\<close>

text \<open>
  \<^verbatim>\<open>patch_wasm_file(path)\<close> returns the file system after its writes together with the
  error it raised or the Boolean it returned. Reading a path that holds no file raises.
\<close>

definition patch_wasm_file :: "fs \<Rightarrow> path \<Rightarrow> fs \<times> (error + bool)" where
  "patch_wasm_file fs path =
     (case fs path of
        None \<Rightarrow> (fs, Inl (OSError path))
      | Some data \<Rightarrow>
          if length data < 8 \<or> take 4 data \<noteq> [0x00, 0x61, 0x73, 0x6D]
          then (fs, Inl (NotAWasmModule path))
          else walk path fs (data, 8, False, None))"

text \<open>
  \<^verbatim>\<open>main\<close>: what it prints, one value per line, and the loop over the candidates that
  \<^verbatim>\<open>iter_wasm_candidates\<close> yields (a single file, or the \<^verbatim>\<open>*_bg.wasm\<close> files under a
  directory), given as a list. The result is the file system, the lines printed and the
  exit status.
\<close>

datatype message = PatchedLine path | ErrorLine path error | NoChangesNeeded

fun main_loop :: "fs \<Rightarrow> path list \<Rightarrow> bool \<Rightarrow> message list \<Rightarrow> fs \<times> message list \<times> int" where
  "main_loop fs [] any_patched out =
     (fs, (if \<not> any_patched then out @ [NoChangesNeeded] else out), 0)"
| "main_loop fs (wasm # rest) any_patched out =
     (case patch_wasm_file fs wasm of
        (fs', Inl e) \<Rightarrow> (fs', out @ [ErrorLine wasm e], 2)
      | (fs', Inr did) \<Rightarrow>
          if did then main_loop fs' rest True (out @ [PatchedLine wasm])
          else main_loop fs' rest any_patched out)"

definition main :: "fs \<Rightarrow> path list \<Rightarrow> fs \<times> message list \<times> int" where
  "main fs candidates = main_loop fs candidates False []"

definition exit_status :: "fs \<times> message list \<times> int \<Rightarrow> int" where
  "exit_status r = snd (snd r)"

definition printed :: "fs \<times> message list \<times> int \<Rightarrow> message list" where
  "printed r = fst (snd r)"

section \<open>Vocabulary for the claims\<close>

text \<open>
  The definitions of this section are not functions of the script; the claims below are
  stated with them. \<open>walk_n n\<close> runs the first \<open>n\<close> iterations of the loop of
  \<^verbatim>\<open>patch_wasm_file\<close> and so names the state in which the walker arrives at a section;
  \<open>walk\<close> goes on from there (lemma \<open>walk_n_walk\<close>).
\<close>

fun walk_n :: "nat \<Rightarrow> path \<Rightarrow> fs \<Rightarrow> walk_state \<Rightarrow> fs \<times> (error + walk_state)" where
  "walk_n 0 path fs st = (fs, Inr st)"
| "walk_n (Suc n) path fs (data, off, patched, externref_table_index) =
     (if off < length data
      then
        (case walk_step path fs (data, off, patched, externref_table_index) of
           (fs', Inl e) \<Rightarrow> (fs', Inl e)
         | (fs', Inr st') \<Rightarrow> walk_n n path fs' st')
      else (fs, Inr (data, off, patched, externref_table_index)))"

text \<open>
  For a list of candidates: the result of \<^verbatim>\<open>patch_wasm_file\<close> on each of them, every one
  on the files its predecessors left; the files left after the whole list; and the
  \<^verbatim>\<open>patched:\<close> lines of the candidates that returned true.
\<close>

fun store_after :: "fs \<Rightarrow> path list \<Rightarrow> fs" where
  "store_after fs [] = fs"
| "store_after fs (c # cs) = store_after (fst (patch_wasm_file fs c)) cs"

fun outcomes :: "fs \<Rightarrow> path list \<Rightarrow> (path \<times> (error + bool)) list" where
  "outcomes fs [] = []"
| "outcomes fs (c # cs) =
     (c, snd (patch_wasm_file fs c)) # outcomes (fst (patch_wasm_file fs c)) cs"

definition patched_lines :: "(path \<times> (error + bool)) list \<Rightarrow> message list" where
  "patched_lines os = map (\<lambda>(p, r). PatchedLine p) (filter (\<lambda>(p, r). r = Inr True) os)"

text \<open>
  A table or export section is closed when the loop over its entries ends with the
  cursor at or before the end of the section's payload, as in every module an encoder
  writes. The script tests the cursor against the end of the payload only before each
  table descriptor, and not at all for export entries, so that a section can read, and
  patch, bytes of the sections behind it. \<open>sections_closed\<close> says that every table and
  export section the loop of \<^verbatim>\<open>patch_wasm_file\<close> handles is closed.
\<close>

definition section_closed :: "walk_state \<Rightarrow> bool" where
  "section_closed st =
     (case st of (data, off, patched, externref_table_index) \<Rightarrow>
      case byte_at data off of Inl e \<Rightarrow> True | Inr section_id \<Rightarrow>
      case read_varuint data (off + 1) of Inl e \<Rightarrow> True | Inr (section_size, n) \<Rightarrow>
      let payload_off = off + 1 + n;
          payload_end = payload_off + section_size
      in
      if section_id = 4
      then
        (case read_varuint data payload_off of
           Inl e \<Rightarrow> True
         | Inr (table_count, cn) \<Rightarrow>
             (case table_loop data payload_end 0 table_count
                     (payload_off + cn, data, externref_table_index, patched) of
                Inl e \<Rightarrow> True
              | Inr (p, mutable, ext', patched') \<Rightarrow> p \<le> payload_end))
      else if section_id = 7
      then
        (case externref_table_index of
           None \<Rightarrow> True
         | Some ext \<Rightarrow>
             (case read_varuint data payload_off of
                Inl e \<Rightarrow> True
              | Inr (export_count, cn) \<Rightarrow>
                  (case export_loop data ext export_count (payload_off + cn, data, patched) of
                     Inl e \<Rightarrow> True
                   | Inr (p, mutable, patched') \<Rightarrow> p \<le> payload_end)))
      else True)"

function sections_closed :: "path \<Rightarrow> fs \<Rightarrow> walk_state \<Rightarrow> bool" where
  "sections_closed path fs (data, off, patched, externref_table_index) =
     (if off < length data
      then
        section_closed (data, off, patched, externref_table_index) \<and>
        (case walk_step path fs (data, off, patched, externref_table_index) of
           (fs', Inl e) \<Rightarrow> True
         | (fs', Inr st') \<Rightarrow> sections_closed path fs' st')
      else True)"
  by pat_completeness auto
termination sections_closed
proof (relation "measure (\<lambda>(path, fs, data, off, patched, ext). length data - off)")
  show "wf (measure (\<lambda>(path, fs, data, off, patched, ext). length data - off))" by simp
next
  fix path :: path and fs :: fs and data off patched externref_table_index x1 x2 y
  assume lt: "off < length data"
    and "(x1, x2) = walk_step path fs (data, off, patched, externref_table_index)"
    and "x2 = Inr y"
  then have "walk_step path fs (data, off, patched, externref_table_index) = (x1, Inr y)" by simp
  then show "((path, x1, y), path, fs, data, off, patched, externref_table_index)
      \<in> measure (\<lambda>(path, fs, data, off, patched, ext). length data - off)"
    using lt by (cases y) (auto dest!: walk_step_progress)
qed

declare sections_closed.simps [simp del]

section \<open>Example modules\<close>

text \<open>
  Small modules on which the functions are evaluated below: a table section with one
  external-reference table whose maximum equals its initial size 4, the same module after
  the patch, one whose maximum 8 already leaves room for four more entries, and one whose
  export section comes before the table section.
\<close>

definition wasm_header :: bytes where
  "wasm_header = [0x00, 0x61, 0x73, 0x6D, 0x01, 0x00, 0x00, 0x00]"

definition tight_table_module :: bytes where
  "tight_table_module = wasm_header @ [0x04, 0x05, 0x01, 0x6F, 0x01, 0x04, 0x04]"

definition widened_table_module :: bytes where
  "widened_table_module = wasm_header @ [0x04, 0x05, 0x01, 0x6F, 0x01, 0x04, 0x7F]"

definition roomy_table_module :: bytes where
  "roomy_table_module = wasm_header @ [0x04, 0x05, 0x01, 0x6F, 0x01, 0x04, 0x08]"

definition export_first_module :: bytes where
  "export_first_module =
     wasm_header @ [0x07, 0x02, 0x01, 0x7F] @ [0x04, 0x05, 0x01, 0x6F, 0x01, 0x04, 0x04]"

definition no_max_table_module :: bytes where
  "no_max_table_module = wasm_header @ [0x04, 0x04, 0x01, 0x6F, 0x00, 0x04]"

definition broken_tail_module :: bytes where
  "broken_tail_module = tight_table_module @ [0x01, 0x05]"

text \<open>
  A module with 129 tables, of which only the last (index 128) is an external-reference
  table, and one export \<^verbatim>\<open>__wbindgen_externrefs\<close> of kind 1 whose index 0 is encoded in
  one byte.
\<close>

definition many_tables_prefix :: bytes where
  "many_tables_prefix =
     wasm_header @ [0x04, 0x85, 0x03, 0x81, 0x01] @ concat (replicate 128 [0x70, 0x00, 0x00])"

definition many_tables_suffix :: bytes where
  "many_tables_suffix =
     [0x6F, 0x00, 0x00] @ [0x07, 0x19, 0x01, 0x15] @ wbindgen_externrefs @ [0x01, 0x00]"

definition many_tables_module :: bytes where
  "many_tables_module = many_tables_prefix @ many_tables_suffix"

text \<open>
  A module with an unknown section before a table section of two tables, a function
  table and an external-reference table, both with maximum 4 and initial size 4, and the
  same module after the patch. A module whose external-reference table has initial size
  and maximum 124, before and after the patch. A module whose first export section
  declares two exports although its payload holds none, so that its descriptors are read
  from the bytes of the export section behind it; the same module after one and after two
  runs. Three candidate files, the second of them empty. A module with a table section and
  an export section that both need a patch, before and after it.
\<close>

definition two_tables_module :: bytes where
  "two_tables_module =
     wasm_header @ [0x01, 0x01, 0xAA]
     @ [0x04, 0x09, 0x02, 0x70, 0x01, 0x04, 0x04, 0x6F, 0x01, 0x04, 0x04]"

definition two_tables_module_patched :: bytes where
  "two_tables_module_patched =
     wasm_header @ [0x01, 0x01, 0xAA]
     @ [0x04, 0x09, 0x02, 0x70, 0x01, 0x04, 0x04, 0x6F, 0x01, 0x04, 0x7F]"

definition full_table_module :: bytes where
  "full_table_module = wasm_header @ [0x04, 0x05, 0x01, 0x6F, 0x01, 0x7C, 0x7C]"

definition full_table_module_patched :: bytes where
  "full_table_module_patched = wasm_header @ [0x04, 0x05, 0x01, 0x6F, 0x01, 0x7C, 0x7F]"

definition overlapping_exports_module :: bytes where
  "overlapping_exports_module =
     wasm_header
     @ [0x04, 0x43, 0x16] @ concat (replicate 21 [0x70, 0x00, 0x00]) @ [0x6F, 0x00, 0x00]
     @ [0x07, 0x02, 0x02, 0x18]
     @ [0x07, 0x30, 0x01, 0x15] @ wbindgen_externrefs @ [0x01, 0x00]
     @ wbindgen_externrefs @ [0x01, 0x00]"

definition overlapping_exports_once :: bytes where
  "overlapping_exports_once =
     wasm_header
     @ [0x04, 0x43, 0x16] @ concat (replicate 21 [0x70, 0x00, 0x00]) @ [0x6F, 0x00, 0x00]
     @ [0x07, 0x02, 0x02, 0x18]
     @ [0x07, 0x30, 0x01, 0x15] @ wbindgen_externrefs @ [0x01, 0x15]
     @ wbindgen_externrefs @ [0x01, 0x00]"

definition overlapping_exports_twice :: bytes where
  "overlapping_exports_twice =
     wasm_header
     @ [0x04, 0x43, 0x16] @ concat (replicate 21 [0x70, 0x00, 0x00]) @ [0x6F, 0x00, 0x00]
     @ [0x07, 0x02, 0x02, 0x18]
     @ [0x07, 0x30, 0x01, 0x15] @ wbindgen_externrefs @ [0x01, 0x15]
     @ wbindgen_externrefs @ [0x01, 0x15]"

definition three_candidates :: fs where
  "three_candidates =
     [''b_bg.wasm'' \<mapsto> [], ''c_bg.wasm'' \<mapsto> tight_table_module, ''a_bg.wasm'' \<mapsto> tight_table_module]"

definition table_and_export_module :: bytes where
  "table_and_export_module =
     wasm_header @ [0x04, 0x05, 0x01, 0x6F, 0x01, 0x04, 0x04] @
     [0x07, 0x19, 0x01, 0x15] @ wbindgen_externrefs @ [0x01, 0x05]"

definition table_and_export_patched :: bytes where
  "table_and_export_patched =
     wasm_header @ [0x04, 0x05, 0x01, 0x6F, 0x01, 0x04, 0x7F] @
     [0x07, 0x19, 0x01, 0x15] @ wbindgen_externrefs @ [0x01, 0x00]"

lemmas module_defs =
  wasm_header_def tight_table_module_def widened_table_module_def roomy_table_module_def
  export_first_module_def no_max_table_module_def broken_tail_module_def
  two_tables_module_def two_tables_module_patched_def full_table_module_def
  full_table_module_patched_def overlapping_exports_module_def overlapping_exports_once_def
  overlapping_exports_twice_def three_candidates_def table_and_export_module_def
  table_and_export_patched_def

section \<open>Which errors the parts can raise\<close>

lemma read_varuint_loop_errors:
  "read_varuint_loop data off res shift n = Inl e \<Longrightarrow> e = UnexpectedEOF \<or> e = VaruintTooLarge"
proof (induction data off res shift n rule: read_varuint_loop.induct)
  case (1 data off res shift n)
  from "1.prems" show ?case
    by (subst (asm) read_varuint_loop.simps)
       (auto simp add: Let_def split: if_splits dest: "1.IH"[OF _ refl refl refl _ refl])
qed

lemma read_varuint_errors:
  "read_varuint data off = Inl e \<Longrightarrow> e = UnexpectedEOF \<or> e = VaruintTooLarge"
  unfolding read_varuint_def by (rule read_varuint_loop_errors)

lemma read_varuint_fits [simp]: "read_varuint data off \<noteq> Inl ValueDoesNotFit"
  using read_varuint_errors[of data off ValueDoesNotFit] by auto

lemma byte_at_fits [simp]: "byte_at data i \<noteq> Inl ValueDoesNotFit"
  by (simp add: byte_at_def)

lemma max_value_fits:
  "encode_varuint_fixed_width (2 ^ (7 * n) - Suc 0) n = Inr (varuint_bytes n (2 ^ (7 * n) - Suc 0))"
  by (simp add: encode_varuint_fixed_width_eq)

lemma table_entry_fits: "table_entry data payload_end table_idx s \<noteq> Inl ValueDoesNotFit"
  by (auto simp add: table_entry_def Let_def max_value_fits split: prod.splits sum.splits option.splits if_splits)

lemma table_loop_fits: "table_loop data payload_end table_idx k s \<noteq> Inl ValueDoesNotFit"
  by (induction k arbitrary: table_idx s) (auto simp add: table_entry_fits split: sum.splits)

lemma read_varuint_encoded:
  assumes "1 \<le> w" "w \<le> 6" "v < 2 ^ (7 * w)"
  shows "read_varuint (pre @ varuint_bytes w v @ post) (length pre) = Inr (v, w)"
proof -
  from assms(1) obtain k where w: "w = Suc k" by (cases w) auto
  have "read_varuint_loop (pre @ varuint_bytes w v @ post) (length pre) 0 0 0
      = Inr (0 + v * 2 ^ 0, 0 + Suc k)"
    using assms w by (intro read_loop_varuint_bytes[where post = post]) simp_all
  then show ?thesis by (simp add: read_varuint_def w)
qed

section \<open>Evaluating the functions on concrete modules\<close>

lemma table_loop_numeral:
  "table_loop data payload_end table_idx (numeral k) s =
     (case table_entry data payload_end table_idx s of
        Inl e \<Rightarrow> Inl e
      | Inr s' \<Rightarrow> table_loop data payload_end (Suc table_idx) (pred_numeral k) s')"
  by (simp add: numeral_eq_Suc)

lemma table_loop_one:
  "table_loop data payload_end table_idx 1 s =
     (case table_entry data payload_end table_idx s of
        Inl e \<Rightarrow> Inl e
      | Inr s' \<Rightarrow> Inr s')"
  by (simp split: sum.splits)

lemma export_loop_numeral:
  "export_loop data ext (numeral k) s =
     (case export_entry data ext s of
        Inl e \<Rightarrow> Inl e
      | Inr s' \<Rightarrow> export_loop data ext (pred_numeral k) s')"
  by (simp add: numeral_eq_Suc)

lemma export_loop_one:
  "export_loop data ext 1 s =
     (case export_entry data ext s of
        Inl e \<Rightarrow> Inl e
      | Inr s' \<Rightarrow> Inr s')"
  by (simp split: sum.splits)

lemma walk_n_numeral:
  "walk_n (numeral k) path fs (data, off, patched, ext) =
     (if off < length data
      then
        (case walk_step path fs (data, off, patched, ext) of
           (fs', Inl e) \<Rightarrow> (fs', Inl e)
         | (fs', Inr st') \<Rightarrow> walk_n (pred_numeral k) path fs' st')
      else (fs, Inr (data, off, patched, ext)))"
  by (simp add: numeral_eq_Suc)

lemma walk_n_one:
  "walk_n 1 path fs (data, off, patched, ext) =
     (if off < length data
      then
        (case walk_step path fs (data, off, patched, ext) of
           (fs', Inl e) \<Rightarrow> (fs', Inl e)
         | (fs', Inr st') \<Rightarrow> (fs', Inr st'))
      else (fs, Inr (data, off, patched, ext)))"
  by (auto split: prod.splits sum.splits)

lemma replicate_numeral_unfold: "replicate (numeral k) x = x # replicate (pred_numeral k) x"
  by (simp add: numeral_eq_Suc)

lemmas eval_simps =
  patch_wasm_file_def walk.simps walk_step_def finish_section_def
  table_section_def table_entry_def table_loop_numeral table_loop_one
  export_section_def export_entry_def export_loop_numeral export_loop_one
  byte_at_def assign_slice_def wbindgen_externrefs_def
  read_varuint_def read_varuint_loop.simps
  encode_varuint_fixed_width_def upt_rec
  main_def exit_status_def printed_def Let_def walk_n_numeral walk_n_one

section \<open>Facts about patched fields and about writes\<close>

lemma nth_assign_slice_before:
  "k < a \<Longrightarrow> a \<le> length mutable \<Longrightarrow> assign_slice mutable a b enc ! k = mutable ! k"
  by (simp add: assign_slice_def nth_append)

lemma read_varuint_assign_slice:
  assumes "1 \<le> w" "w \<le> 6" "v < 2 ^ (7 * w)" "a + w \<le> length mutable"
  shows "read_varuint (assign_slice mutable a (a + w) (varuint_bytes w v)) a = Inr (v, w)"
proof -
  have "length (take a mutable) = a" using assms(4) by simp
  with read_varuint_encoded[OF assms(1-3), of "take a mutable" "drop (a + w) mutable"]
  show ?thesis by (simp add: assign_slice_def)
qed

lemma walk_step_error_no_write:
  "walk_step path fs st = (fs', Inl e) \<Longrightarrow> fs' = fs"
  by (cases st)
     (auto simp add: walk_step_def Let_def finish_section_def
           split: sum.splits if_splits option.splits prod.splits)

lemma table_entry_patched:
  "table_entry data payload_end table_idx (p, mutable, ext, patched) = Inr (p', mutable', ext', patched') \<Longrightarrow>
   patched \<Longrightarrow> patched'"
  by (auto simp add: table_entry_def Let_def split: sum.splits if_splits option.splits prod.splits)

lemma table_loop_patched:
  "table_loop data payload_end table_idx k (p, mutable, ext, patched) = Inr (p', mutable', ext', patched') \<Longrightarrow>
   patched \<Longrightarrow> patched'"
proof (induction k arbitrary: table_idx p mutable ext patched)
  case 0
  then show ?case by simp
next
  case (Suc k)
  from Suc.prems(1) obtain p1 m1 e1 pt1 where
    e: "table_entry data payload_end table_idx (p, mutable, ext, patched) = Inr (p1, m1, e1, pt1)"
    and l: "table_loop data payload_end (Suc table_idx) k (p1, m1, e1, pt1) = Inr (p', mutable', ext', patched')"
    by (auto split: sum.splits)
  from table_entry_patched[OF e Suc.prems(2)] Suc.IH[OF l] show ?case by simp
qed

lemma table_section_patched:
  "table_section data payload_off payload_end ext patched = Inr (mutable, ext', patched') \<Longrightarrow>
   patched \<Longrightarrow> patched'"
  by (auto simp add: table_section_def split: sum.splits dest: table_loop_patched)

lemma export_entry_patched:
  "export_entry data ext (p, mutable, patched) = Inr (p', mutable', patched') \<Longrightarrow>
   patched \<Longrightarrow> patched'"
  by (auto simp add: export_entry_def Let_def split: sum.splits if_splits prod.splits)

lemma export_loop_patched:
  "export_loop data ext k (p, mutable, patched) = Inr (p', mutable', patched') \<Longrightarrow>
   patched \<Longrightarrow> patched'"
proof (induction k arbitrary: p mutable patched)
  case 0
  then show ?case by simp
next
  case (Suc k)
  from Suc.prems(1) obtain p1 m1 pt1 where
    e: "export_entry data ext (p, mutable, patched) = Inr (p1, m1, pt1)"
    and l: "export_loop data ext k (p1, m1, pt1) = Inr (p', mutable', patched')"
    by (auto split: sum.splits)
  from export_entry_patched[OF e Suc.prems(2)] Suc.IH[OF l] show ?case by simp
qed

lemma export_section_patched:
  "export_section data payload_off ext patched = Inr (mutable, patched') \<Longrightarrow>
   patched \<Longrightarrow> patched'"
  by (auto simp add: export_section_def split: sum.splits dest: export_loop_patched)

lemma walk_step_write:
  "walk_step path fs (data, off, patched, ext) = (fs', Inr (data', off', patched', ext')) \<Longrightarrow>
   (fs' = fs \<and> data' = data \<and> patched' = patched) \<or> (patched' \<and> fs' = fs(path \<mapsto> data'))"
  by (auto simp add: walk_step_def Let_def finish_section_def
           split: sum.splits if_splits option.splits prod.splits
           dest: table_section_patched export_section_patched)

lemma walk_abort:
  "walk path fs (data, off, patched, ext) = (fs', Inl e) \<Longrightarrow>
   fs = fs0 \<or> (patched \<and> fs = fs0(path \<mapsto> data)) \<Longrightarrow>
   \<exists>data1 off1 patched1 ext1.
      walk_step path fs' (data1, off1, patched1, ext1) = (fs', Inl e) \<and>
      length data1 = length data \<and>
      (fs' = fs0 \<or> (patched1 \<and> fs' = fs0(path \<mapsto> data1)))"
proof (induction path fs "(data, off, patched, ext)" arbitrary: data off patched ext
       rule: walk.induct)
  case (1 path fs data off patched ext)
  from "1.prems"(1) have lt: "off < length data"
    by (subst (asm) walk.simps) (auto split: if_splits)
  obtain fs1 r where step: "walk_step path fs (data, off, patched, ext) = (fs1, r)"
    by (cases "walk_step path fs (data, off, patched, ext)")
  show ?case
  proof (cases r)
    case (Inl e1)
    with step lt "1.prems"(1) have e: "e1 = e" "fs' = fs1"
      by (subst (asm) walk.simps, simp)+
    from walk_step_error_no_write[OF step[unfolded Inl]] have "fs1 = fs" .
    with step Inl e "1.prems"(2) show ?thesis by auto
  next
    case (Inr st')
    obtain data' off' patched' ext' where st': "st' = (data', off', patched', ext')"
      by (cases st') auto
    from step Inr st' lt "1.prems"(1)
    have w: "walk path fs1 (data', off', patched', ext') = (fs', Inl e)"
      by (subst (asm) walk.simps) simp
    from walk_step_progress[OF step[unfolded Inr st']] have len: "length data' = length data"
      by simp
    from walk_step_write[OF step[unfolded Inr st']] "1.prems"(2)
    have inv: "fs1 = fs0 \<or> (patched' \<and> fs1 = fs0(path \<mapsto> data'))"
      by auto
    from "1.hyps"[OF lt step[symmetric] Inr[unfolded st'] w inv] len show ?thesis by simp
  qed
qed

section \<open>The module with 129 tables, step by step\<close>

lemma read_varuint_loop_append:
  "read_varuint_loop (pre @ xs) (length pre + off) res shift n = read_varuint_loop xs off res shift n"
proof (induction xs off res shift n rule: read_varuint_loop.induct)
  case (1 xs off res shift n)
  show ?case
  proof (cases "off + n \<ge> length xs")
    case True
    then show ?thesis
      by (subst read_varuint_loop.simps, subst (2) read_varuint_loop.simps) simp
  next
    case False
    have nth: "(pre @ xs) ! (length pre + off + n) = xs ! (off + n)"
      by (simp add: nth_append)
    show ?thesis
      using False nth "1.IH"[OF False refl refl refl _ refl]
      by (subst read_varuint_loop.simps, subst (2) read_varuint_loop.simps)
         (simp add: Let_def)
  qed
qed

lemma read_varuint_append:
  "length pre = l \<Longrightarrow> l \<le> q \<Longrightarrow> read_varuint (pre @ xs) q = read_varuint xs (q - l)"
  using read_varuint_loop_append[of pre xs "q - l" 0 0 0] by (simp add: read_varuint_def)

lemma byte_at_append:
  "length pre = l \<Longrightarrow> l \<le> q \<Longrightarrow> byte_at (pre @ xs) q = byte_at xs (q - l)"
  by (auto simp add: byte_at_def nth_append)

lemma read_varuint_single:
  assumes "q < length data" and "unat (data ! q) < 128"
  shows "read_varuint data q = Inr (unat (data ! q), 1)"
proof -
  have "unat (data ! q) AND 0x80 = 0" using assms(2) by (simp add: and128_byte)
  moreover have "unat (data ! q) AND 0x7F = unat (data ! q)" using assms(2) by (simp add: low7)
  ultimately show ?thesis
    using assms(1) unfolding read_varuint_def
    by (subst read_varuint_loop.simps) (simp add: Let_def)
qed

lemma table_entry_funcref_skip:
  assumes "drop p data = 0x70 # 0x00 # 0x00 # rest" and "p < payload_end"
  shows "table_entry data payload_end table_idx (p, mutable, ext, patched)
           = Inr (p + 3, mutable, ext, patched)"
proof -
  from drop_eq_ConsD[OF assms(1)] have a: "p < length data" "data ! p = 0x70"
    and d1: "drop (Suc p) data = 0x00 # 0x00 # rest" by simp_all
  from drop_eq_ConsD[OF d1] have b: "Suc p < length data" "data ! Suc p = 0x00"
    and d2: "drop (Suc (Suc p)) data = 0x00 # rest" by simp_all
  from drop_eq_ConsD[OF d2] have c: "Suc (Suc p) < length data" "data ! Suc (Suc p) = 0x00"
    by simp_all
  have r1: "read_varuint data (p + 1) = Inr (0, 1)"
    using read_varuint_single[of "p + 1" data] b by simp
  have r2: "read_varuint data (p + 1 + 1) = Inr (0, 1)"
    using read_varuint_single[of "p + 1 + 1" data] c by simp
  show ?thesis
    using assms(2) a r1 r2 by (simp add: table_entry_def byte_at_def)
qed

lemma table_loop_funcref_skip:
  "drop p data = concat (replicate k [0x70, 0x00, 0x00]) @ rest \<Longrightarrow>
   p + 3 * k \<le> payload_end \<Longrightarrow>
   table_loop data payload_end table_idx (k + m) (p, mutable, ext, patched)
     = table_loop data payload_end (table_idx + k) m (p + 3 * k, mutable, ext, patched)"
proof (induction k arbitrary: p table_idx)
  case 0
  then show ?case by simp
next
  case (Suc k)
  from Suc.prems(1)
  have d: "drop p data = 0x70 # 0x00 # 0x00 # (concat (replicate k [0x70, 0x00, 0x00]) @ rest)"
    by simp
  have e: "table_entry data payload_end table_idx (p, mutable, ext, patched)
      = Inr (p + 3, mutable, ext, patched)"
    using d Suc.prems(2) by (intro table_entry_funcref_skip) simp_all
  have "drop (p + 3) data = drop 3 (drop p data)" by (simp add: add.commute)
  with d have d3: "drop (p + 3) data = concat (replicate k [0x70, 0x00, 0x00]) @ rest" by simp
  have "p + 3 + 3 * k = p + 3 * Suc k" by simp
  with Suc.IH[OF d3, of "Suc table_idx"] Suc.prems(2) e show ?case by simp
qed

lemma length_many_tables_prefix: "length many_tables_prefix = 397"
  by (simp add: many_tables_prefix_def wasm_header_def length_concat sum_list_replicate)

lemma length_many_tables_module: "length many_tables_module = 427"
  by (simp add: many_tables_module_def length_many_tables_prefix many_tables_suffix_def
        wbindgen_externrefs_def)

lemma many_tables_head:
  "byte_at many_tables_module 8 = Inr 4"
  "read_varuint many_tables_module 9 = Inr (389, 2)"
  "read_varuint many_tables_module 11 = Inr (129, 2)"
  by (simp_all add: many_tables_module_def many_tables_prefix_def wasm_header_def byte_at_def
        length_concat sum_list_replicate read_varuint_def read_varuint_loop.simps nth_append Let_def)

lemma many_tables_drop:
  "drop 13 many_tables_module = concat (replicate 128 [0x70, 0x00, 0x00]) @ many_tables_suffix"
  by (simp add: many_tables_module_def many_tables_prefix_def wasm_header_def)

lemma many_tables_tail:
  "397 \<le> q \<Longrightarrow> read_varuint many_tables_module q = read_varuint many_tables_suffix (q - 397)"
  "397 \<le> q \<Longrightarrow> byte_at many_tables_module q = byte_at many_tables_suffix (q - 397)"
  "397 \<le> q \<Longrightarrow> drop q many_tables_module = drop (q - 397) many_tables_suffix"
  unfolding many_tables_module_def
  using length_many_tables_prefix
  by (simp_all add: read_varuint_append byte_at_append)

lemma many_tables_reads:
  "byte_at many_tables_module 397 = Inr 0x6F"
  "read_varuint many_tables_module 398 = Inr (0, 1)"
  "read_varuint many_tables_module 399 = Inr (0, 1)"
  "byte_at many_tables_module 400 = Inr 7"
  "read_varuint many_tables_module 401 = Inr (25, 1)"
  "read_varuint many_tables_module 402 = Inr (1, 1)"
  "read_varuint many_tables_module 403 = Inr (21, 1)"
  "take 21 (drop 404 many_tables_module) = wbindgen_externrefs"
  "byte_at many_tables_module 425 = Inr 1"
  "read_varuint many_tables_module 426 = Inr (0, 1)"
  by (simp_all add: many_tables_tail)
     (simp_all add: many_tables_suffix_def wbindgen_externrefs_def byte_at_def
        read_varuint_def read_varuint_loop.simps Let_def)

lemma many_tables_table_section:
  "table_section many_tables_module 11 400 None False = Inr (many_tables_module, Some 128, False)"
proof -
  have "table_loop many_tables_module 400 0 (128 + 1) (13, many_tables_module, None, False)
      = table_loop many_tables_module 400 (0 + 128) 1 (13 + 3 * 128, many_tables_module, None, False)"
    using many_tables_drop by (intro table_loop_funcref_skip) simp_all
  moreover have "table_entry many_tables_module 400 128 (397, many_tables_module, None, False)
      = Inr (400, many_tables_module, Some 128, False)"
    by (simp add: table_entry_def many_tables_reads)
  ultimately show ?thesis
    by (simp add: table_section_def many_tables_head table_loop_one)
qed

lemma many_tables_export_section:
  "export_section many_tables_module 402 128 False = Inl ValueDoesNotFit"
  by (simp add: export_section_def export_entry_def export_loop_one many_tables_reads
        encode_varuint_fixed_width_eq)

lemma many_tables_walk:
  "walk path fs (many_tables_module, 8, False, None) = (fs, Inl ValueDoesNotFit)"
proof -
  have s1: "walk_step path fs (many_tables_module, 8, False, None)
      = (fs, Inr (many_tables_module, 400, False, Some 128))"
    by (simp add: walk_step_def many_tables_head length_many_tables_module
          many_tables_table_section finish_section_def)
  have s2: "walk_step path fs (many_tables_module, 400, False, Some 128)
      = (fs, Inl ValueDoesNotFit)"
    by (simp add: walk_step_def many_tables_reads length_many_tables_module
          many_tables_export_section)
  show ?thesis
    by (subst walk.simps, simp add: s1 length_many_tables_module,
        subst walk.simps, simp add: s2 length_many_tables_module)
qed

lemma many_tables_magic:
  "\<not> (length many_tables_module < 8 \<or> take 4 many_tables_module \<noteq> [0x00, 0x61, 0x73, 0x6D])"
  by (simp add: length_many_tables_module)
     (simp add: many_tables_module_def many_tables_prefix_def wasm_header_def)

section \<open>Encodings that are too wide\<close>

lemma varuint_bytes_continuation:
  "Suc k < w \<Longrightarrow> unat (varuint_bytes w v ! k) AND 0x80 \<noteq> 0"
proof (induction w arbitrary: v k)
  case 0
  then show ?case by simp
next
  case (Suc w)
  show ?case
  proof (cases k)
    case 0
    with Suc.prems have "w \<noteq> 0" by simp
    moreover have "(v mod 128 + 128) AND 0x80 \<noteq> 0"
      using and128_byte[of "v mod 128 + 128"] by simp
    ultimately show ?thesis using 0 by (simp add: unat_cont_byte)
  next
    case (Suc k')
    with Suc.prems have "Suc k' < w" by simp
    from Suc.IH[OF this] Suc show ?thesis by simp
  qed
qed

lemma read_varuint_too_wide:
  assumes "7 \<le> w"
  shows "read_varuint (pre @ varuint_bytes w v @ post) (length pre) = Inl VaruintTooLarge"
  unfolding read_varuint_def
proof (rule read_varuint_loop_too_large)
  fix k :: nat
  assume "0 \<le> k" and k: "k < 6"
  then have "Suc k < w" using assms by simp
  from varuint_bytes_continuation[OF this, of v] k assms
  show "length pre + k < length (pre @ varuint_bytes w v @ post) \<and>
        unat ((pre @ varuint_bytes w v @ post) ! (length pre + k)) AND 0x80 \<noteq> 0"
    by (simp add: nth_append)
qed simp_all

section \<open>Facts about the driver\<close>

lemma patched_lines_simps [simp]:
  "patched_lines [] = []"
  "patched_lines ((p, r) # os) = (if r = Inr True then PatchedLine p # patched_lines os else patched_lines os)"
  by (simp_all add: patched_lines_def)

lemma main_loop_ok:
  "\<not> (\<exists>p e. (p, Inl e) \<in> set (outcomes fs cs)) \<Longrightarrow>
   main_loop fs cs any_patched out =
     (store_after fs cs,
      (if any_patched \<or> (\<exists>p. (p, Inr True) \<in> set (outcomes fs cs))
       then out @ patched_lines (outcomes fs cs)
       else out @ patched_lines (outcomes fs cs) @ [NoChangesNeeded]), 0)"
proof (induction cs arbitrary: fs any_patched out)
  case Nil
  then show ?case by simp
next
  case (Cons c cs)
  obtain fs' r where p: "patch_wasm_file fs c = (fs', r)" by (cases "patch_wasm_file fs c")
  with Cons.prems obtain did where r: "r = Inr did" by (cases r) auto
  from Cons.prems p r have ok: "\<not> (\<exists>p e. (p, Inl e) \<in> set (outcomes fs' cs))" by auto
  show ?case
    using Cons.IH[OF ok] p r by (cases did) auto
qed

lemma main_loop_fail:
  "\<not> (\<exists>p e. (p, Inl e) \<in> set (outcomes fs pre)) \<Longrightarrow>
   patch_wasm_file (store_after fs pre) c = (fs', Inl e) \<Longrightarrow>
   main_loop fs (pre @ c # post) any_patched out =
     (fs', out @ patched_lines (outcomes fs pre) @ [ErrorLine c e], 2)"
proof (induction pre arbitrary: fs any_patched out)
  case Nil
  then show ?case by simp
next
  case (Cons x xs)
  obtain fs1 r where p: "patch_wasm_file fs x = (fs1, r)" by (cases "patch_wasm_file fs x")
  with Cons.prems(1) obtain did where r: "r = Inr did" by (cases r) auto
  from Cons.prems(1) p r have ok: "\<not> (\<exists>p e. (p, Inl e) \<in> set (outcomes fs1 xs))" by auto
  from Cons.prems(2) p have f: "patch_wasm_file (store_after fs1 xs) c = (fs', Inl e)" by simp
  show ?case
    using Cons.IH[OF ok f] p r by (cases did) auto
qed

lemma first_failure:
  "\<exists>p e. (p, Inl e) \<in> set (outcomes fs cs) \<Longrightarrow>
   \<exists>pre c post fs' e. cs = pre @ c # post \<and> \<not> (\<exists>p e. (p, Inl e) \<in> set (outcomes fs pre)) \<and>
      patch_wasm_file (store_after fs pre) c = (fs', Inl e)"
proof (induction cs arbitrary: fs)
  case Nil
  then show ?case by simp
next
  case (Cons x xs)
  obtain fs1 r where p: "patch_wasm_file fs x = (fs1, r)" by (cases "patch_wasm_file fs x")
  show ?case
  proof (cases r)
    case (Inl e)
    with p have "x # xs = [] @ x # xs \<and> \<not> (\<exists>p e. (p, Inl e) \<in> set (outcomes fs [])) \<and>
      patch_wasm_file (store_after fs []) x = (fs1, Inl e)" by simp
    then show ?thesis by blast
  next
    case (Inr did)
    with Cons.prems p have "\<exists>p e. (p, Inl e) \<in> set (outcomes fs1 xs)" by auto
    from Cons.IH[OF this] obtain pre c post fs' e where
      h: "xs = pre @ c # post" "\<not> (\<exists>p e. (p, Inl e) \<in> set (outcomes fs1 pre))"
         "patch_wasm_file (store_after fs1 pre) c = (fs', Inl e)" by blast
    from h p Inr have "x # xs = (x # pre) @ c # post \<and>
        \<not> (\<exists>p e. (p, Inl e) \<in> set (outcomes fs (x # pre))) \<and>
        patch_wasm_file (store_after fs (x # pre)) c = (fs', Inl e)" by auto
    then show ?thesis by blast
  qed
qed

lemma patched_lines_no_notice: "NoChangesNeeded \<notin> set (patched_lines os)"
  by (auto simp add: patched_lines_def)

section \<open>Reading a section again after it was patched\<close>

lemma nth_assign_slice_inside:
  "a \<le> length mutable \<Longrightarrow> k < length enc \<Longrightarrow> assign_slice mutable a b enc ! (a + k) = enc ! k"
  by (simp add: assign_slice_def nth_append)

lemma nth_assign_slice_after:
  assumes "b = a + length enc" and "b \<le> k" and "k < length mutable"
  shows "assign_slice mutable a b enc ! k = mutable ! k"
proof -
  have "length (take a mutable) = a" using assms by simp
  then show ?thesis using assms by (auto simp add: assign_slice_def nth_append)
qed

lemma assign_slice_same:
  assumes "a + length enc \<le> length M" and "\<And>k. k < length enc \<Longrightarrow> M ! (a + k) = enc ! k"
  shows "assign_slice M a (a + length enc) enc = M"
proof -
  have "take (length enc) (drop a M) = enc"
    using assms by (intro nth_equalityI) simp_all
  moreover have "drop (length enc) (drop a M) = drop (a + length enc) M"
    by (simp add: add.commute)
  ultimately have "take a M @ enc @ drop (a + length enc) M
      = take a M @ (take (length enc) (drop a M) @ drop (length enc) (drop a M))"
    by simp
  also have "\<dots> = M" by (simp only: append_take_drop_id)
  finally show ?thesis by (simp add: assign_slice_def)
qed

lemma table_entry_InrE:
  assumes "table_entry D pe idx (p, mut, ext, pt) = Inr (p1, mut1, ext1, pt1)"
  obtains
    (nomax) elem flags n1 i n2 where
      "p < pe" "byte_at D p = Inr elem"
      "read_varuint D (p + 1) = Inr (flags, n1)" "read_varuint D (p + 1 + n1) = Inr (i, n2)"
      "flags AND 1 = 0" "p1 = p + 1 + n1 + n2" "mut1 = mut" "pt1 = pt"
      "ext1 = (if elem = 0x6F \<and> ext = None then Some idx else ext)"
  | (keep) elem flags n1 i n2 m w where
      "p < pe" "byte_at D p = Inr elem"
      "read_varuint D (p + 1) = Inr (flags, n1)" "read_varuint D (p + 1 + n1) = Inr (i, n2)"
      "flags AND 1 \<noteq> 0" "read_varuint D (p + 1 + n1 + n2) = Inr (m, w)"
      "\<not> (elem = 0x6F \<and> m < i + 4)"
      "p1 = p + 1 + n1 + n2 + w" "mut1 = mut" "pt1 = pt"
      "ext1 = (if elem = 0x6F \<and> ext = None then Some idx else ext)"
  | (rewrite) flags n1 i n2 m w where
      "p < pe" "byte_at D p = Inr 0x6F"
      "read_varuint D (p + 1) = Inr (flags, n1)" "read_varuint D (p + 1 + n1) = Inr (i, n2)"
      "flags AND 1 \<noteq> 0" "read_varuint D (p + 1 + n1 + n2) = Inr (m, w)"
      "m < i + 4"
      "p1 = p + 1 + n1 + n2 + w"
      "mut1 = assign_slice mut (p + 1 + n1 + n2) (p + 1 + n1 + n2 + w)
                (varuint_bytes w (2 ^ (7 * w) - 1))"
      "pt1 = True"
      "ext1 = (if ext = None then Some idx else ext)"
proof -
  from assms have lt: "p < pe" by (auto simp add: table_entry_def split: if_splits)
  from assms lt obtain elem where b: "byte_at D p = Inr elem"
    by (auto simp add: table_entry_def split: sum.splits)
  from assms lt b obtain flags n1 where r1: "read_varuint D (p + 1) = Inr (flags, n1)"
    by (auto simp add: table_entry_def split: sum.splits)
  from assms lt b r1 obtain i n2 where r2: "read_varuint D (p + 1 + n1) = Inr (i, n2)"
    by (auto simp add: table_entry_def split: sum.splits)
  show ?thesis
  proof (cases "flags AND 1 = 0")
    case True
    with assms lt b r1 r2 show ?thesis
      by (intro nomax[of elem flags n1 i n2]) (auto simp add: table_entry_def)
  next
    case False
    with assms lt b r1 r2 obtain m w where r3: "read_varuint D (p + 1 + n1 + n2) = Inr (m, w)"
      by (auto simp add: table_entry_def split: sum.splits)
    have enc: "encode_varuint_fixed_width (push_bit (7 * w) 1 - 1) w
        = Inr (varuint_bytes w (2 ^ (7 * w) - 1))"
      by (simp add: max_value_fits push_bit_eq_mult)
    show ?thesis
    proof (cases "elem = 0x6F \<and> m < i + 4")
      case True
      with assms lt b r1 r2 r3 False enc show ?thesis
        by (intro rewrite[of flags n1 i n2 m w]) (auto simp add: table_entry_def)
    next
      case nc: False
      with assms lt b r1 r2 r3 False show ?thesis
        by (intro keep[of elem flags n1 i n2 m w]) (auto simp add: table_entry_def)
    qed
  qed
qed

lemma table_entry_frame:
  assumes e: "table_entry D pe idx (p, mut, ext, pt) = Inr (p1, mut1, ext1, pt1)"
    and len: "length mut = length D"
  shows "p < p1 \<and> p1 \<le> length D \<and> length mut1 = length mut \<and>
         (\<forall>k. k < p \<longrightarrow> mut1 ! k = mut ! k) \<and>
         (\<forall>k. p1 \<le> k \<and> k < length D \<longrightarrow> mut1 ! k = mut ! k)"
  using e
proof (cases rule: table_entry_InrE)
  case (nomax elem flags n1 i n2)
  from read_varuint_bounds[OF nomax(4)] nomax(6,7) show ?thesis by simp
next
  case (keep elem flags n1 i n2 m w)
  from read_varuint_bounds[OF keep(6)] keep(8,9) show ?thesis by simp
next
  case (rewrite flags n1 i n2 m w)
  from read_varuint_bounds[OF rewrite(6)] have b: "p + 1 + n1 + n2 + w \<le> length D" by simp
  have l: "length mut1 = length mut"
    using b len by (simp add: rewrite(9) length_assign_slice)
  have before: "mut1 ! k = mut ! k" if "k < p" for k
    unfolding rewrite(9) using that b len by (intro nth_assign_slice_before) simp_all
  have after: "mut1 ! k = mut ! k" if "p1 \<le> k" "k < length D" for k
    unfolding rewrite(9) using that len rewrite(8) by (intro nth_assign_slice_after) simp_all
  from b l before after rewrite(8) show ?thesis by simp
qed

lemma table_loop_frame:
  "table_loop D pe idx k (p, mut, ext, pt) = Inr (p', M, ext', pt') \<Longrightarrow>
   length mut = length D \<Longrightarrow>
   p \<le> p' \<and> length M = length mut \<and> (\<forall>j<p. M ! j = mut ! j)"
proof (induction k arbitrary: idx p mut ext pt)
  case 0
  then show ?case by simp
next
  case (Suc k)
  from Suc.prems(1) obtain p1 m1 e1 pt1 where
    e: "table_entry D pe idx (p, mut, ext, pt) = Inr (p1, m1, e1, pt1)"
    and l: "table_loop D pe (Suc idx) k (p1, m1, e1, pt1) = Inr (p', M, ext', pt')"
    by (auto split: sum.splits)
  from table_entry_frame[OF e Suc.prems(2)]
  have f: "p < p1" "length m1 = length mut" "\<forall>k. k < p \<longrightarrow> m1 ! k = mut ! k" by simp_all
  from Suc.IH[OF l] f(2) Suc.prems(2)
  have g: "p1 \<le> p'" "length M = length m1" "\<forall>j<p1. M ! j = m1 ! j" by simp_all
  from f g show ?case by auto
qed

lemma table_entry_again:
  assumes e: "table_entry D pe idx (p, mut, ext, pt) = Inr (p1, mut1, ext1, pt1)"
    and len: "length mut = length D"
    and suffix: "\<And>k. p \<le> k \<Longrightarrow> k < length D \<Longrightarrow> mut ! k = D ! k"
    and lenM: "length M = length D"
    and below: "\<And>k. k < p1 \<Longrightarrow> M ! k = mut1 ! k"
  shows "\<exists>pt2'. table_entry M pe idx (p, M, ext, pt2) = Inr (p1, M, ext1, pt2') \<and>
               (pt2' \<longrightarrow> pt2 \<or> pt1)"
  using e
proof (cases rule: table_entry_InrE)
  case (nomax elem flags n1 i n2)
  from read_varuint_bounds[OF nomax(3)] read_varuint_bounds[OF nomax(4)]
  have b: "p + 1 + n1 \<le> length D" "p + 1 + n1 + n2 \<le> length D" by simp_all
  have agree: "M ! k = D ! k" if "p \<le> k" "k < p1" for k
    using that below[of k] suffix[of k] b nomax(6,7) by simp
  from nomax(2) have pl: "p < length D" by (auto simp add: byte_at_def split: if_splits)
  have b0: "byte_at M p = Inr elem"
    using nomax(2) pl lenM agree[of p] nomax(6) by (simp add: byte_at_def)
  have r1: "read_varuint M (p + 1) = Inr (flags, n1)"
    using nomax(3) by (rule read_varuint_local) (use b lenM agree nomax(6) in simp_all)
  have r2: "read_varuint M (p + 1 + n1) = Inr (i, n2)"
    using nomax(4) by (rule read_varuint_local) (use b lenM agree nomax(6) in simp_all)
  show ?thesis
    using nomax(1,5,6,9) b0 r1 r2 by (simp add: table_entry_def)
next
  case (keep elem flags n1 i n2 m w)
  from read_varuint_bounds[OF keep(3)] read_varuint_bounds[OF keep(4)]
    read_varuint_bounds[OF keep(6)]
  have b: "p + 1 + n1 \<le> length D" "p + 1 + n1 + n2 \<le> length D"
    "p + 1 + n1 + n2 + w \<le> length D" by simp_all
  have agree: "M ! k = D ! k" if "p \<le> k" "k < p1" for k
    using that below[of k] suffix[of k] b keep(8,9) by simp
  from keep(2) have pl: "p < length D" by (auto simp add: byte_at_def split: if_splits)
  have b0: "byte_at M p = Inr elem"
    using keep(2) pl lenM agree[of p] keep(8) by (simp add: byte_at_def)
  have r1: "read_varuint M (p + 1) = Inr (flags, n1)"
    using keep(3) by (rule read_varuint_local) (use b lenM agree keep(8) in simp_all)
  have r2: "read_varuint M (p + 1 + n1) = Inr (i, n2)"
    using keep(4) by (rule read_varuint_local) (use b lenM agree keep(8) in simp_all)
  have r3: "read_varuint M (p + 1 + n1 + n2) = Inr (m, w)"
    using keep(6) by (rule read_varuint_local) (use b lenM agree keep(8) in simp_all)
  show ?thesis
    using keep(1,5,7,8,11) b0 r1 r2 r3 by (auto simp add: table_entry_def)
next
  case (rewrite flags n1 i n2 m w)
  define p3 where "p3 = p + 1 + n1 + n2"
  define V :: nat where "V = 2 ^ (7 * w) - 1"
  from read_varuint_bounds[OF rewrite(3)] read_varuint_bounds[OF rewrite(4)]
    read_varuint_bounds[OF rewrite(6)]
  have b: "p + 1 + n1 \<le> length D" "p + 1 + n1 + n2 \<le> length D"
    "p3 + w \<le> length D" "1 \<le> w" "w \<le> 6" by (simp_all add: p3_def)
  have m1: "mut1 = assign_slice mut p3 (p3 + w) (varuint_bytes w V)"
    using rewrite(9) by (simp add: p3_def V_def)
  have p1: "p1 = p3 + w" using rewrite(8) by (simp add: p3_def)
  have agree: "M ! k = D ! k" if "p \<le> k" "k < p3" for k
  proof -
    have "M ! k = mut1 ! k" using that p1 by (intro below) simp
    also have "\<dots> = mut ! k"
      unfolding m1 using that b len by (intro nth_assign_slice_before) simp_all
    also have "\<dots> = D ! k" using that b by (intro suffix) simp_all
    finally show ?thesis .
  qed
  have inside: "M ! (p3 + k) = varuint_bytes w V ! k" if "k < w" for k
  proof -
    have "M ! (p3 + k) = mut1 ! (p3 + k)" using that p1 by (intro below) simp
    also have "\<dots> = varuint_bytes w V ! k"
      unfolding m1 using that b len by (intro nth_assign_slice_inside) simp_all
    finally show ?thesis .
  qed
  from rewrite(2) have pl: "p < length D" by (auto simp add: byte_at_def split: if_splits)
  have b0: "byte_at M p = Inr 0x6F"
    using rewrite(2) pl lenM agree[of p] by (simp add: byte_at_def p3_def)
  have r1: "read_varuint M (p + 1) = Inr (flags, n1)"
    using rewrite(3) by (rule read_varuint_local) (use b lenM agree in \<open>simp_all add: p3_def\<close>)
  have r2: "read_varuint M (p + 1 + n1) = Inr (i, n2)"
    using rewrite(4) by (rule read_varuint_local) (use b lenM agree in \<open>simp_all add: p3_def\<close>)
  have "read_varuint (assign_slice mut p3 (p3 + w) (varuint_bytes w V)) p3 = Inr (V, w)"
    using b len by (intro read_varuint_assign_slice) (simp_all add: V_def)
  then have rm: "read_varuint mut1 p3 = Inr (V, w)" by (simp add: m1)
  have r3: "read_varuint M p3 = Inr (V, w)"
    using rm by (rule read_varuint_local) (use b lenM below p1 in simp_all)
  have same: "assign_slice M p3 (p3 + w) (varuint_bytes w V) = M"
    using assign_slice_same[of p3 "varuint_bytes w V" M] b lenM inside by simp
  have enc: "encode_varuint_fixed_width (push_bit (7 * w) 1 - 1) w = Inr (varuint_bytes w V)"
    by (simp add: max_value_fits push_bit_eq_mult V_def)
  show ?thesis
    using rewrite(1,5,10,11) b0 r1 r2 r3[unfolded p3_def] same[unfolded p3_def] enc p1[unfolded p3_def]
    by (auto simp add: table_entry_def)
qed

lemma table_loop_again:
  "table_loop D pe idx k (p, mut, ext, pt) = Inr (p', M, ext', pt') \<Longrightarrow>
   length mut = length D \<Longrightarrow>
   (\<And>j. p \<le> j \<Longrightarrow> j < length D \<Longrightarrow> mut ! j = D ! j) \<Longrightarrow>
   length F = length D \<Longrightarrow>
   (\<And>j. j < p' \<Longrightarrow> F ! j = M ! j) \<Longrightarrow>
   \<exists>pt2'. table_loop F pe idx k (p, F, ext, pt2) = Inr (p', F, ext', pt2') \<and>
          (pt2' \<longrightarrow> pt2 \<or> pt')"
proof (induction k arbitrary: idx p mut ext pt pt2)
  case 0
  then show ?case by simp
next
  case (Suc k)
  from Suc.prems(1) obtain p1 m1 e1 pt1 where
    e: "table_entry D pe idx (p, mut, ext, pt) = Inr (p1, m1, e1, pt1)"
    and l: "table_loop D pe (Suc idx) k (p1, m1, e1, pt1) = Inr (p', M, ext', pt')"
    by (auto split: sum.splits)
  from table_entry_frame[OF e Suc.prems(2)]
  have f: "p < p1" "length m1 = length D"
    "\<And>j. p1 \<le> j \<Longrightarrow> j < length D \<Longrightarrow> m1 ! j = mut ! j"
    using Suc.prems(2) by simp_all
  have suffix1: "m1 ! j = D ! j" if "p1 \<le> j" "j < length D" for j
    using that f(1) f(3)[of j] Suc.prems(3)[of j] by simp
  from table_loop_frame[OF l f(2)]
  have g: "p1 \<le> p'" "\<And>j. j < p1 \<Longrightarrow> M ! j = m1 ! j"
    by simp_all
  have below: "F ! j = m1 ! j" if "j < p1" for j
    using that g(1) g(2)[of j] Suc.prems(5)[of j] by simp
  from table_entry_again[OF e Suc.prems(2) Suc.prems(3) Suc.prems(4) below, of pt2]
  obtain pt2a where e2: "table_entry F pe idx (p, F, ext, pt2) = Inr (p1, F, e1, pt2a)"
    and i2: "pt2a \<longrightarrow> pt2 \<or> pt1"
    by blast
  from Suc.IH[OF l f(2) suffix1 Suc.prems(4) Suc.prems(5), of pt2a]
  obtain pt2' where l2: "table_loop F pe (Suc idx) k (p1, F, e1, pt2a) = Inr (p', F, ext', pt2')"
    and i3: "pt2' \<longrightarrow> pt2a \<or> pt'"
    by blast
  from table_loop_patched[OF l] have "pt1 \<longrightarrow> pt'" by simp
  with e2 l2 i2 i3 show ?case by auto
qed

lemma table_section_again:
  assumes r: "read_varuint D payload_off = Inr (cnt, n)"
    and l: "table_loop D payload_end 0 cnt (payload_off + n, D, ext, pt) = Inr (p', M, ext', pt')"
    and lenF: "length F = length D"
    and below: "\<And>j. j < p' \<Longrightarrow> F ! j = M ! j"
  shows "\<exists>pt2'. table_section F payload_off payload_end ext pt2 = Inr (F, ext', pt2') \<and>
               (pt2' \<longrightarrow> pt2 \<or> pt')"
proof -
  from table_loop_frame[OF l]
  have f: "payload_off + n \<le> p'" "\<And>j. j < payload_off + n \<Longrightarrow> M ! j = D ! j" by simp_all
  have agree: "F ! j = D ! j" if "j < payload_off + n" for j
    using that f(1) f(2)[of j] below[of j] by simp
  have r': "read_varuint F payload_off = Inr (cnt, n)"
    using r by (rule read_varuint_local) (use read_varuint_bounds[OF r] lenF agree in simp_all)
  from table_loop_again[OF l _ _ lenF below, of pt2]
  obtain pt2' where "table_loop F payload_end 0 cnt (payload_off + n, F, ext, pt2)
      = Inr (p', F, ext', pt2')" "pt2' \<longrightarrow> pt2 \<or> pt'"
    by auto
  with r' show ?thesis by (simp add: table_section_def)
qed

lemma export_entry_InrE:
  assumes "export_entry D ext (p, mut, pt) = Inr (p1, mut1, pt1)"
  obtains
    (keep) name_len n kind idx_val idx_n where
      "read_varuint D p = Inr (name_len, n)" "byte_at D (p + n + name_len) = Inr kind"
      "read_varuint D (p + n + name_len + 1) = Inr (idx_val, idx_n)"
      "\<not> (take name_len (drop (p + n) D) = wbindgen_externrefs \<and> kind = 1 \<and> idx_val \<noteq> ext)"
      "p1 = p + n + name_len + 1 + idx_n" "mut1 = mut" "pt1 = pt"
  | (rewrite) name_len n idx_val idx_n where
      "read_varuint D p = Inr (name_len, n)" "byte_at D (p + n + name_len) = Inr 1"
      "read_varuint D (p + n + name_len + 1) = Inr (idx_val, idx_n)"
      "take name_len (drop (p + n) D) = wbindgen_externrefs" "idx_val \<noteq> ext"
      "ext < 2 ^ (7 * idx_n)"
      "p1 = p + n + name_len + 1 + idx_n"
      "mut1 = assign_slice mut (p + n + name_len + 1) (p + n + name_len + 1 + idx_n)
                (varuint_bytes idx_n ext)"
      "pt1 = True"
proof -
  from assms obtain name_len n where r1: "read_varuint D p = Inr (name_len, n)"
    by (auto simp add: export_entry_def Let_def split: sum.splits)
  from assms r1 obtain kind where b: "byte_at D (p + n + name_len) = Inr kind"
    by (auto simp add: export_entry_def Let_def split: sum.splits)
  from assms r1 b obtain idx_val idx_n where
    r2: "read_varuint D (p + n + name_len + 1) = Inr (idx_val, idx_n)"
    by (auto simp add: export_entry_def Let_def split: sum.splits)
  show ?thesis
  proof (cases "take name_len (drop (p + n) D) = wbindgen_externrefs \<and> kind = 1 \<and> idx_val \<noteq> ext")
    case True
    with assms r1 b r2 show ?thesis
      by (intro rewrite[of name_len n idx_val idx_n])
         (auto simp add: export_entry_def Let_def encode_varuint_fixed_width_eq split: if_splits)
  next
    case False
    with assms r1 b r2 show ?thesis
      by (intro keep[of name_len n kind idx_val idx_n]) (auto simp add: export_entry_def Let_def)
  qed
qed

lemma export_entry_frame:
  assumes e: "export_entry D ext (p, mut, pt) = Inr (p1, mut1, pt1)"
    and len: "length mut = length D"
  shows "p < p1 \<and> p1 \<le> length D \<and> length mut1 = length mut \<and>
         (\<forall>k. k < p \<longrightarrow> mut1 ! k = mut ! k) \<and>
         (\<forall>k. p1 \<le> k \<and> k < length D \<longrightarrow> mut1 ! k = mut ! k)"
  using e
proof (cases rule: export_entry_InrE)
  case (keep name_len n kind idx_val idx_n)
  from read_varuint_bounds[OF keep(3)] keep(5,6) show ?thesis by simp
next
  case (rewrite name_len n idx_val idx_n)
  from read_varuint_bounds[OF rewrite(3)]
  have b: "p + n + name_len + 1 + idx_n \<le> length D" by simp
  have l: "length mut1 = length mut"
    using b len by (simp add: rewrite(8) length_assign_slice)
  have before: "mut1 ! k = mut ! k" if "k < p" for k
    unfolding rewrite(8) using that b len by (intro nth_assign_slice_before) simp_all
  have after: "mut1 ! k = mut ! k" if "p1 \<le> k" "k < length D" for k
    unfolding rewrite(8) using that len rewrite(7) by (intro nth_assign_slice_after) simp_all
  from b l before after rewrite(7) show ?thesis by simp
qed

lemma export_loop_frame:
  "export_loop D ext k (p, mut, pt) = Inr (p', M, pt') \<Longrightarrow>
   length mut = length D \<Longrightarrow>
   p \<le> p' \<and> length M = length mut \<and> (\<forall>j<p. M ! j = mut ! j)"
proof (induction k arbitrary: p mut pt)
  case 0
  then show ?case by simp
next
  case (Suc k)
  from Suc.prems(1) obtain p1 m1 pt1 where
    e: "export_entry D ext (p, mut, pt) = Inr (p1, m1, pt1)"
    and l: "export_loop D ext k (p1, m1, pt1) = Inr (p', M, pt')"
    by (auto split: sum.splits)
  from export_entry_frame[OF e Suc.prems(2)]
  have f: "p < p1" "length m1 = length mut" "\<forall>k. k < p \<longrightarrow> m1 ! k = mut ! k" by simp_all
  from Suc.IH[OF l] f(2) Suc.prems(2)
  have g: "p1 \<le> p'" "length M = length m1" "\<forall>j<p1. M ! j = m1 ! j" by simp_all
  from f g show ?case by auto
qed

lemma take_drop_agree:
  assumes "length M = length D" and "\<And>k. a \<le> k \<Longrightarrow> k < a + l \<Longrightarrow> k < length D \<Longrightarrow> M ! k = D ! k"
  shows "take l (drop a M) = take l (drop a D)"
proof (rule nth_equalityI)
  show "length (take l (drop a M)) = length (take l (drop a D))" using assms(1) by simp
next
  fix i assume "i < length (take l (drop a M))"
  then have i: "i < l" "a + i < length D" using assms(1) by auto
  then have "M ! (a + i) = D ! (a + i)" by (intro assms(2)) simp_all
  then show "take l (drop a M) ! i = take l (drop a D) ! i"
    using i assms(1) by simp
qed

lemma export_entry_again:
  assumes e: "export_entry D ext (p, mut, pt) = Inr (p1, mut1, pt1)"
    and len: "length mut = length D"
    and suffix: "\<And>k. p \<le> k \<Longrightarrow> k < length D \<Longrightarrow> mut ! k = D ! k"
    and lenM: "length M = length D"
    and below: "\<And>k. k < p1 \<Longrightarrow> M ! k = mut1 ! k"
  shows "export_entry M ext (p, M, pt2) = Inr (p1, M, pt2)"
  using e
proof (cases rule: export_entry_InrE)
  case (keep name_len n kind idx_val idx_n)
  from read_varuint_bounds[OF keep(1)] read_varuint_bounds[OF keep(3)]
  have b: "p + n \<le> length D" "p + n + name_len + 1 + idx_n \<le> length D" by simp_all
  have agree: "M ! k = D ! k" if "p \<le> k" "k < p1" for k
    using that below[of k] suffix[of k] b keep(5,6) by simp
  have r1: "read_varuint M p = Inr (name_len, n)"
    using keep(1) by (rule read_varuint_local) (use b lenM agree keep(5) in simp_all)
  have nm: "take name_len (drop (p + n) M) = take name_len (drop (p + n) D)"
    using lenM by (rule take_drop_agree) (use agree keep(5) in simp)
  have k0: "byte_at M (p + n + name_len) = Inr kind"
    using keep(2) lenM agree[of "p + n + name_len"] keep(5)
    by (auto simp add: byte_at_def split: if_splits)
  have r2: "read_varuint M (p + n + name_len + 1) = Inr (idx_val, idx_n)"
    using keep(3) by (rule read_varuint_local) (use b lenM agree keep(5) in simp_all)
  show ?thesis
    using keep(4,5) r1 nm k0 r2 by (auto simp add: export_entry_def)
next
  case (rewrite name_len n idx_val idx_n)
  define q where "q = p + n + name_len + 1"
  from read_varuint_bounds[OF rewrite(1)] read_varuint_bounds[OF rewrite(3)]
  have b: "p + n \<le> length D" "q + idx_n \<le> length D" "1 \<le> idx_n" "idx_n \<le> 6"
    by (simp_all add: q_def)
  have m1: "mut1 = assign_slice mut q (q + idx_n) (varuint_bytes idx_n ext)"
    using rewrite(8) by (simp add: q_def)
  have p1: "p1 = q + idx_n" using rewrite(7) by (simp add: q_def)
  have agree: "M ! k = D ! k" if "p \<le> k" "k < q" for k
  proof -
    have "M ! k = mut1 ! k" using that p1 by (intro below) simp
    also have "\<dots> = mut ! k"
      unfolding m1 using that b len by (intro nth_assign_slice_before) simp_all
    also have "\<dots> = D ! k" using that b by (intro suffix) simp_all
    finally show ?thesis .
  qed
  have r1: "read_varuint M p = Inr (name_len, n)"
    using rewrite(1) by (rule read_varuint_local) (use b lenM agree in \<open>simp_all add: q_def\<close>)
  have nm: "take name_len (drop (p + n) M) = take name_len (drop (p + n) D)"
    using lenM by (rule take_drop_agree) (use agree in \<open>simp add: q_def\<close>)
  have k0: "byte_at M (p + n + name_len) = Inr 1"
    using rewrite(2) lenM agree[of "p + n + name_len"]
    by (auto simp add: byte_at_def q_def split: if_splits)
  have "read_varuint (assign_slice mut q (q + idx_n) (varuint_bytes idx_n ext)) q = Inr (ext, idx_n)"
    using b len rewrite(6) by (intro read_varuint_assign_slice) simp_all
  then have rm: "read_varuint mut1 q = Inr (ext, idx_n)" by (simp add: m1)
  have r2: "read_varuint M q = Inr (ext, idx_n)"
    using rm by (rule read_varuint_local) (use b lenM below p1 in simp_all)
  show ?thesis
    using r1 nm k0 r2[unfolded q_def] p1[unfolded q_def] by (simp add: export_entry_def)
qed

lemma export_loop_again:
  "export_loop D ext k (p, mut, pt) = Inr (p', M, pt') \<Longrightarrow>
   length mut = length D \<Longrightarrow>
   (\<And>j. p \<le> j \<Longrightarrow> j < length D \<Longrightarrow> mut ! j = D ! j) \<Longrightarrow>
   length F = length D \<Longrightarrow>
   (\<And>j. j < p' \<Longrightarrow> F ! j = M ! j) \<Longrightarrow>
   export_loop F ext k (p, F, pt2) = Inr (p', F, pt2)"
proof (induction k arbitrary: p mut pt)
  case 0
  then show ?case by simp
next
  case (Suc k)
  from Suc.prems(1) obtain p1 m1 pt1 where
    e: "export_entry D ext (p, mut, pt) = Inr (p1, m1, pt1)"
    and l: "export_loop D ext k (p1, m1, pt1) = Inr (p', M, pt')"
    by (auto split: sum.splits)
  from export_entry_frame[OF e Suc.prems(2)]
  have f: "p < p1" "length m1 = length D"
    "\<And>j. p1 \<le> j \<Longrightarrow> j < length D \<Longrightarrow> m1 ! j = mut ! j"
    using Suc.prems(2) by simp_all
  have suffix1: "m1 ! j = D ! j" if "p1 \<le> j" "j < length D" for j
    using that f(1) f(3)[of j] Suc.prems(3)[of j] by simp
  from export_loop_frame[OF l f(2)]
  have g: "p1 \<le> p'" "\<And>j. j < p1 \<Longrightarrow> M ! j = m1 ! j"
    by simp_all
  have below: "F ! j = m1 ! j" if "j < p1" for j
    using that g(1) g(2)[of j] Suc.prems(5)[of j] by simp
  from export_entry_again[OF e Suc.prems(2) Suc.prems(3) Suc.prems(4) below]
  have e2: "export_entry F ext (p, F, pt2) = Inr (p1, F, pt2)" .
  from Suc.IH[OF l f(2) suffix1 Suc.prems(4) Suc.prems(5)] e2 show ?case by simp
qed

lemma export_section_again:
  assumes r: "read_varuint D payload_off = Inr (cnt, n)"
    and l: "export_loop D ext cnt (payload_off + n, D, pt) = Inr (p', M, pt')"
    and lenF: "length F = length D"
    and below: "\<And>j. j < p' \<Longrightarrow> F ! j = M ! j"
  shows "export_section F payload_off ext pt2 = Inr (F, pt2)"
proof -
  from export_loop_frame[OF l]
  have f: "payload_off + n \<le> p'" "\<And>j. j < payload_off + n \<Longrightarrow> M ! j = D ! j" by simp_all
  have agree: "F ! j = D ! j" if "j < payload_off + n" for j
    using that f(1) f(2)[of j] below[of j] by simp
  have r': "read_varuint F payload_off = Inr (cnt, n)"
    using r by (rule read_varuint_local) (use read_varuint_bounds[OF r] lenF agree in simp_all)
  from export_loop_again[OF l _ _ lenF below, of pt2]
  have "export_loop F ext cnt (payload_off + n, F, pt2) = Inr (p', F, pt2)" by simp
  with r' show ?thesis by (simp add: export_section_def)
qed

lemma table_loop_unpatched:
  "table_loop D pe idx k (p, mut, ext, pt) = Inr (p', M, ext', False) \<Longrightarrow> M = mut"
proof (induction k arbitrary: idx p mut ext pt)
  case 0
  then show ?case by simp
next
  case (Suc k)
  from Suc.prems(1) obtain p1 m1 e1 pt1 where
    e: "table_entry D pe idx (p, mut, ext, pt) = Inr (p1, m1, e1, pt1)"
    and l: "table_loop D pe (Suc idx) k (p1, m1, e1, pt1) = Inr (p', M, ext', False)"
    by (auto split: sum.splits)
  from table_loop_patched[OF l] have "\<not> pt1" by auto
  with e have "m1 = mut" by (cases rule: table_entry_InrE) simp_all
  with Suc.IH[OF l] show ?case by simp
qed

lemma export_loop_unpatched:
  "export_loop D ext k (p, mut, pt) = Inr (p', M, False) \<Longrightarrow> M = mut"
proof (induction k arbitrary: p mut pt)
  case 0
  then show ?case by simp
next
  case (Suc k)
  from Suc.prems(1) obtain p1 m1 pt1 where
    e: "export_entry D ext (p, mut, pt) = Inr (p1, m1, pt1)"
    and l: "export_loop D ext k (p1, m1, pt1) = Inr (p', M, False)"
    by (auto split: sum.splits)
  from export_loop_patched[OF l] have "\<not> pt1" by auto
  with e have "m1 = mut" by (cases rule: export_entry_InrE) simp_all
  with Suc.IH[OF l] show ?case by simp
qed

lemma table_section_frame:
  assumes "table_section D payload_off payload_end ext pt = Inr (M, ext', pt')"
  shows "length M = length D \<and> (\<forall>j<payload_off. M ! j = D ! j) \<and> (\<not> pt' \<longrightarrow> M = D)"
proof -
  from assms obtain cnt n p' where
    l: "table_loop D payload_end 0 cnt (payload_off + n, D, ext, pt) = Inr (p', M, ext', pt')"
    by (auto simp add: table_section_def split: sum.splits)
  from table_loop_frame[OF l] table_loop_unpatched[of D payload_end 0 cnt _ D ext pt p' M ext'] l
  show ?thesis by auto
qed

lemma export_section_frame:
  assumes "export_section D payload_off ext pt = Inr (M, pt')"
  shows "length M = length D \<and> (\<forall>j<payload_off. M ! j = D ! j) \<and> (\<not> pt' \<longrightarrow> M = D)"
proof -
  from assms obtain cnt n p' where
    l: "export_loop D ext cnt (payload_off + n, D, pt) = Inr (p', M, pt')"
    by (auto simp add: export_section_def split: sum.splits)
  from export_loop_frame[OF l] export_loop_unpatched[of D ext cnt _ D pt p' M] l
  show ?thesis by auto
qed

lemma walk_step_again:
  assumes w: "walk_step path fs (data, off, patched, ext) = (fs1, Inr (data1, off1, patched1, ext1))"
    and closed: "section_closed (data, off, patched, ext)"
    and lenF: "length F = length data"
    and below: "\<And>j. j < off1 \<Longrightarrow> F ! j = data1 ! j"
    and stored: "fs2 path = Some F"
  shows "\<exists>patched2'.
           walk_step path fs2 (F, off, patched2, ext) = (fs2, Inr (F, off1, patched2', ext1)) \<and>
           (patched2' \<longrightarrow> patched2 \<or> patched1)"
proof -
  from w obtain section_id section_size n where
    b: "byte_at data off = Inr section_id"
    and r: "read_varuint data (off + 1) = Inr (section_size, n)"
    and le: "off + 1 + n + section_size \<le> length data"
    by (auto simp add: walk_step_def Let_def split: if_splits sum.splits)
  from b have ol: "off < length data" "unat (data ! off) = section_id"
    by (auto simp add: byte_at_def split: if_splits)
  from read_varuint_bounds[OF r] have rb: "off + 1 + n \<le> length data" by simp
  have same: "fs2(path \<mapsto> F) = fs2" using stored by (rule map_upd_triv)
  have header: "byte_at F off = Inr section_id \<and> read_varuint F (off + 1) = Inr (section_size, n)"
    if "\<forall>j<off + 1 + n. F ! j = data ! j"
  proof -
    have "byte_at F off = Inr section_id" using that ol lenF by (simp add: byte_at_def)
    moreover have "read_varuint F (off + 1) = Inr (section_size, n)"
      using r by (rule read_varuint_local) (use that rb lenF in simp_all)
    ultimately show ?thesis by simp
  qed
  consider (other) "section_id \<noteq> 4" "section_id \<noteq> 7"
    | (table) "section_id = 4"
    | (noindex) "section_id = 7" "ext = None"
    | (export) x where "section_id = 7" "ext = Some x"
    by (cases ext) auto
  then show ?thesis
  proof cases
    case other
    with w b r le have res: "data1 = data" "off1 = off + 1 + n + section_size" "ext1 = ext"
      "patched1 = patched"
      by (simp_all add: walk_step_def)
    have "\<forall>j<off + 1 + n. F ! j = data ! j" using below res by simp
    from header[OF this] other le lenF res show ?thesis
      by (intro exI[of _ patched2]) (simp add: walk_step_def)
  next
    case noindex
    with w b r le have res: "data1 = data" "off1 = off + 1 + n + section_size" "ext1 = ext"
      "patched1 = patched"
      by (simp_all add: walk_step_def)
    have "\<forall>j<off + 1 + n. F ! j = data ! j" using below res by simp
    from header[OF this] noindex le lenF res show ?thesis
      by (intro exI[of _ patched2]) (simp add: walk_step_def)
  next
    case table
    with w b r le obtain M ext' pt' where
      t: "table_section data (off + 1 + n) (off + 1 + n + section_size) ext patched = Inr (M, ext', pt')"
      by (auto simp add: walk_step_def split: sum.splits)
    from t obtain cnt cn p' where
      rc: "read_varuint data (off + 1 + n) = Inr (cnt, cn)"
      and l: "table_loop data (off + 1 + n + section_size) 0 cnt (off + 1 + n + cn, data, ext, patched)
                = Inr (p', M, ext', pt')"
      by (auto simp add: table_section_def split: sum.splits)
    from closed b r table rc l have cl: "p' \<le> off + 1 + n + section_size"
      by (simp add: section_closed_def)
    from table_section_frame[OF t]
    have f: "length M = length data" "\<forall>j<off + 1 + n. M ! j = data ! j" "\<not> pt' \<longrightarrow> M = data"
      by simp_all
    from w b r le table t f(3)
    have res: "data1 = M" "off1 = off + 1 + n + section_size" "ext1 = ext'" "patched1 = pt'"
      by (auto simp add: walk_step_def finish_section_def split: if_splits)
    have belowM: "F ! j = M ! j" if "j < p'" for j
      using that cl below[of j] res by simp
    have "\<forall>j<off + 1 + n. F ! j = data ! j" using below res f(2) by simp
    note h = header[OF this]
    from table_section_again[OF rc l lenF belowM, of patched2]
    obtain pt2' where
      t2: "table_section F (off + 1 + n) (off + 1 + n + section_size) ext patched2 = Inr (F, ext', pt2')"
      and i2: "pt2' \<longrightarrow> patched2 \<or> pt'"
      by blast
    from h t2 i2 le lenF table res same show ?thesis
      by (intro exI[of _ pt2']) (simp add: walk_step_def finish_section_def)
  next
    case (export x)
    with w b r le obtain M pt' where
      t: "export_section data (off + 1 + n) x patched = Inr (M, pt')"
      by (auto simp add: walk_step_def split: sum.splits)
    from t obtain cnt cn p' where
      rc: "read_varuint data (off + 1 + n) = Inr (cnt, cn)"
      and l: "export_loop data x cnt (off + 1 + n + cn, data, patched) = Inr (p', M, pt')"
      by (auto simp add: export_section_def split: sum.splits)
    from closed b r export rc l have cl: "p' \<le> off + 1 + n + section_size"
      by (simp add: section_closed_def)
    from export_section_frame[OF t]
    have f: "length M = length data" "\<forall>j<off + 1 + n. M ! j = data ! j" "\<not> pt' \<longrightarrow> M = data"
      by simp_all
    from w b r le export t f(3)
    have res: "data1 = M" "off1 = off + 1 + n + section_size" "ext1 = ext" "patched1 = pt'"
      by (auto simp add: walk_step_def finish_section_def split: if_splits)
    have belowM: "F ! j = M ! j" if "j < p'" for j
      using that cl below[of j] res by simp
    have "\<forall>j<off + 1 + n. F ! j = data ! j" using below res f(2) by simp
    note h = header[OF this]
    from export_section_again[OF rc l lenF belowM, of patched2]
    have t2: "export_section F (off + 1 + n) x patched2 = Inr (F, patched2)" .
    from h t2 le lenF export res same show ?thesis
      by (intro exI[of _ patched2]) (simp add: walk_step_def finish_section_def)
  qed
qed

section \<open>Every descriptor of a table section\<close>







section \<open>A second run on the file the first run left\<close>

lemma walk_step_frame:
  assumes w: "walk_step path fs (data, off, pt, ext) = (fs1, Inr (data1, off1, pt1, ext1))"
  shows "(\<forall>j<off. data1 ! j = data ! j) \<and> (pt \<longrightarrow> pt1) \<and>
         (fs path = Some data \<longrightarrow> fs1 path = Some data1)"
proof -
  from walk_step_write[OF w]
  have a: "pt \<longrightarrow> pt1" "fs path = Some data \<longrightarrow> fs1 path = Some data1" by auto
  have "data1 ! j = data ! j" if "j < off" for j
    using w that
    by (auto simp add: walk_step_def Let_def finish_section_def
        split: sum.splits if_splits option.splits
        dest!: table_section_frame export_section_frame)
  with a show ?thesis by simp
qed

lemma walk_again:
  "walk path fs (data, off, pt, ext) = (fs', Inr b) \<Longrightarrow>
   sections_closed path fs (data, off, pt, ext) \<Longrightarrow>
   fs path = Some data \<Longrightarrow>
   \<exists>F. fs' path = Some F \<and> length F = length data \<and> (\<forall>j<off. F ! j = data ! j) \<and>
       (\<forall>fs2 pt2. fs2 path = Some F \<longrightarrow> (pt2 \<longrightarrow> pt) \<longrightarrow>
          (\<exists>b2. walk path fs2 (F, off, pt2, ext) = (fs2, Inr b2) \<and> (b2 \<longrightarrow> b)))"
proof (induction path fs "(data, off, pt, ext)" arbitrary: data off pt ext
    rule: walk.induct)
  case (1 path fs data off pt ext)
  show ?case
  proof (cases "off < length data")
    case False
    with "1.prems"(1) have r: "fs' = fs" "b = pt" by (simp_all add: walk.simps)
    have "\<exists>b2. walk path fs2 (data, off, pt2, ext) = (fs2, Inr b2) \<and> (b2 \<longrightarrow> b)"
      if "pt2 \<longrightarrow> pt" for fs2 pt2
      using that False r by (simp add: walk.simps)
    with r "1.prems"(3) show ?thesis by (intro exI[of _ data]) simp
  next
    case True
    with "1.prems"(1) obtain fs1 st1 where
      w: "walk_step path fs (data, off, pt, ext) = (fs1, Inr st1)"
      and k: "walk path fs1 st1 = (fs', Inr b)"
      by (auto simp add: walk.simps split: prod.splits sum.splits)
    obtain data1 off1 pt1 ext1 where st1: "st1 = (data1, off1, pt1, ext1)" by (cases st1)
    note w' = w[unfolded st1] and k' = k[unfolded st1]
    from "1.prems"(2) True w have
      c0: "section_closed (data, off, pt, ext)" and c1: "sections_closed path fs1 st1"
      by (simp_all add: sections_closed.simps[of path fs data off pt ext])
    from walk_step_progress[OF w'] have pr: "length data1 = length data" "off < off1" by simp_all
    from walk_step_frame[OF w'] "1.prems"(3)
    have fr: "\<forall>j<off. data1 ! j = data ! j" "pt \<longrightarrow> pt1" "fs1 path = Some data1" by simp_all
    from "1.hyps"[OF True w'[symmetric] refl k' c1[unfolded st1] fr(3)]
    obtain F where
      F: "fs' path = Some F" "length F = length data1" "\<forall>j<off1. F ! j = data1 ! j"
      and again: "\<And>fs2 pt2. fs2 path = Some F \<Longrightarrow> pt2 \<longrightarrow> pt1 \<Longrightarrow>
          \<exists>b2. walk path fs2 (F, off1, pt2, ext1) = (fs2, Inr b2) \<and> (b2 \<longrightarrow> b)"
      by blast
    have lenF: "length F = length data" using F(2) pr(1) by simp
    have below: "F ! j = data1 ! j" if "j < off1" for j using that F(3) by simp
    have agree: "\<forall>j<off. F ! j = data ! j" using F(3) fr(1) pr(2) by simp
    have "\<exists>b2. walk path fs2 (F, off, pt2, ext) = (fs2, Inr b2) \<and> (b2 \<longrightarrow> b)"
      if s: "fs2 path = Some F" and i: "pt2 \<longrightarrow> pt" for fs2 pt2
    proof -
      from walk_step_again[where ?fs2.0 = fs2 and ?patched2.0 = pt2, OF w' c0 lenF below s]
      obtain pt2a where
        w2: "walk_step path fs2 (F, off, pt2, ext) = (fs2, Inr (F, off1, pt2a, ext1))"
        and i2: "pt2a \<longrightarrow> pt2 \<or> pt1" by blast
      from i i2 fr(2) have "pt2a \<longrightarrow> pt1" by blast
      from again[of fs2 pt2a, OF s this] obtain b2 where
        "walk path fs2 (F, off1, pt2a, ext1) = (fs2, Inr b2)" "b2 \<longrightarrow> b" by blast
      with w2 True lenF show ?thesis by (simp add: walk.simps[of path fs2 F off])
    qed
    with F(1) lenF agree show ?thesis by (intro exI[of _ F]) simp
  qed
qed

text \<open>
  Without the hypothesis that the sections are closed the second run can change the stored
  bytes. The first export section of the module below declares two exports in a payload
  of two bytes, so its entries are read from the export section behind it, and its second
  entry begins at the index byte of that section's export. The first run patches this
  byte to 21; the second run reads it as the length of a name, finds the identifier
  behind it and patches the index that follows.
\<close>

lemma second_run_can_change_bytes:
  "patch_wasm_file [''a_bg.wasm'' \<mapsto> overlapping_exports_module] ''a_bg.wasm''
     = ([''a_bg.wasm'' \<mapsto> overlapping_exports_once], Inr True) \<and>
   patch_wasm_file [''a_bg.wasm'' \<mapsto> overlapping_exports_once] ''a_bg.wasm''
     = ([''a_bg.wasm'' \<mapsto> overlapping_exports_twice], Inr True) \<and>
   overlapping_exports_twice \<noteq> overlapping_exports_once"
  by (simp add: eval_simps module_defs overlapping_exports_module_def overlapping_exports_once_def
        overlapping_exports_twice_def replicate_numeral_unfold
        numeral_2_eq_2[symmetric])

section \<open>Claims about the codec\<close>

text \<open>
  C6, as stated: for every width \<open>w \<ge> 1\<close> and every \<open>v < 2^(7w)\<close>, decoding the bytes of the
  fixed-width encoder gives \<open>v\<close> and \<open>w\<close> consumed bytes. This fails at \<open>w = 7\<close>, \<open>v = 0\<close>:
  the encoder emits six continuation bytes and a final zero byte, and the decoder raises
  \<^verbatim>\<open>varuint too large\<close> once the sixth byte carries the continuation bit.
\<close>

theorem roundtrip_fails_for_width_seven:
  "(1::nat) \<le> 7 \<and> (0::nat) < 2 ^ (7 * 7) \<and>
   encode_varuint_fixed_width 0 7 = Inr [0x80, 0x80, 0x80, 0x80, 0x80, 0x80, 0x00] \<and>
   read_varuint [0x80, 0x80, 0x80, 0x80, 0x80, 0x80, 0x00] 0 = Inl VaruintTooLarge"
proof -
  have "encode_varuint_fixed_width 0 7 = Inr [0x80, 0x80, 0x80, 0x80, 0x80, 0x80, 0x00]"
    by (simp add: eval_simps)
  moreover have "read_varuint [0x80, 0x80, 0x80, 0x80, 0x80, 0x80, 0x00] 0 = Inl VaruintTooLarge"
    by (simp add: eval_simps)
  ultimately show ?thesis by simp
qed

text \<open>
  C6, amended: for every width \<open>w \<ge> 1\<close> and every \<open>v < 2^(7w)\<close> the encoder returns \<open>w\<close>
  bytes. Decoding them, wherever they sit in a buffer, succeeds with the value \<open>v\<close> and
  exactly \<open>w\<close> bytes consumed when \<open>w \<le> 6\<close>, and raises \<^verbatim>\<open>varuint too large\<close> when
  \<open>w \<ge> 7\<close>.
\<close>

theorem encode_decode_roundtrip:
  assumes "1 \<le> w" and "v < 2 ^ (7 * w)"
  shows "\<exists>enc. encode_varuint_fixed_width v w = Inr enc \<and> length enc = w \<and>
           read_varuint (pre @ enc @ post) (length pre)
             = (if w \<le> 6 then Inr (v, w) else Inl VaruintTooLarge)"
proof (cases "w \<le> 6")
  case True
  with assms read_varuint_encoded[OF assms(1) True assms(2), of pre post]
  show ?thesis by (simp add: encode_varuint_fixed_width_eq)
next
  case False
  then have "7 \<le> w" by simp
  from read_varuint_too_wide[OF this, of pre v post] assms False
  show ?thesis by (simp add: encode_varuint_fixed_width_eq)
qed

theorem encode_decode_roundtrip_witness:
  "(1::nat) \<le> 2 \<and> (300::nat) < 2 ^ (7 * 2) \<and>
   encode_varuint_fixed_width 300 2 = Inr [0xAC, 0x02] \<and>
   read_varuint ([0x6F, 0x01] @ [0xAC, 0x02] @ [0x07]) (length [0x6F, 0x01 :: byte]) = Inr (300, 2) \<and>
   (1::nat) \<le> 7 \<and> (300::nat) < 2 ^ (7 * 7) \<and>
   encode_varuint_fixed_width 300 7 = Inr [0xAC, 0x82, 0x80, 0x80, 0x80, 0x80, 0x00] \<and>
   read_varuint ([0x6F, 0x01] @ [0xAC, 0x82, 0x80, 0x80, 0x80, 0x80, 0x00] @ [0x07])
     (length [0x6F, 0x01 :: byte]) = Inl VaruintTooLarge"
proof -
  have e: "encode_varuint_fixed_width 300 2 = Inr [0xAC, 0x02]"
    "encode_varuint_fixed_width 300 7 = Inr [0xAC, 0x82, 0x80, 0x80, 0x80, 0x80, 0x00]"
    by (simp_all add: eval_simps)
  have h2: "(1::nat) \<le> 2" "(300::nat) < 2 ^ (7 * 2)" by simp_all
  have h7: "(1::nat) \<le> 7" "(300::nat) < 2 ^ (7 * 7)" by simp_all
  from encode_decode_roundtrip[OF h2, of "[0x6F, 0x01]" "[0x07]"]
    encode_decode_roundtrip[OF h7, of "[0x6F, 0x01]" "[0x07]"] e
  show ?thesis by simp
qed

text \<open>
  C7, as stated: a successful decode consumes at most 5 bytes. The guard of the decoder is
  \<^verbatim>\<open>shift > 35\<close>, checked after \<^verbatim>\<open>shift += 7\<close>, so a sixth byte is still read, and a
  six-byte encoding decodes.
\<close>

theorem six_byte_decode_succeeds:
  "read_varuint [0x80, 0x80, 0x80, 0x80, 0x80, 0x00] 0 = Inr (0, 6) \<and> \<not> (6::nat) \<le> 5"
  by (simp add: eval_simps)

text \<open>
  C7, amended: a successful decode consumes at least 1 and at most 6 bytes, and the decoder
  raises \<^verbatim>\<open>varuint too large\<close> whenever the six bytes from the offset on all carry the
  continuation bit, that is whenever it would have to consume more than 6 bytes.
\<close>

theorem read_varuint_at_most_six_bytes:
  "(read_varuint data off = Inr (v, n) \<longrightarrow> 1 \<le> n \<and> n \<le> 6) \<and>
   ((\<forall>k<6. off + k < length data \<and> unat (data ! (off + k)) AND 0x80 \<noteq> 0) \<longrightarrow>
      read_varuint data off = Inl VaruintTooLarge)"
proof (intro conjI impI)
  assume "read_varuint data off = Inr (v, n)"
  from read_varuint_bounds[OF this] show "1 \<le> n" and "n \<le> 6" by simp_all
next
  assume "\<forall>k<6. off + k < length data \<and> unat (data ! (off + k)) AND 0x80 \<noteq> 0"
  then show "read_varuint data off = Inl VaruintTooLarge"
    unfolding read_varuint_def by (intro read_varuint_loop_too_large) simp_all
qed

theorem read_varuint_at_most_six_bytes_witness:
  "read_varuint [0x07, 0xFF, 0xFF, 0xFF, 0xFF, 0xFF, 0x7F] 1 = Inr (2 ^ 42 - 1, 6) \<and>
   (1::nat) \<le> 6 \<and> (6::nat) \<le> 6 \<and>
   read_varuint [0x07, 0xFF, 0xFF, 0xFF, 0xFF, 0xFF, 0xFF, 0x7F] 1 = Inl VaruintTooLarge"
proof -
  have r: "read_varuint [0x07, 0xFF, 0xFF, 0xFF, 0xFF, 0xFF, 0x7F] 1 = Inr (2 ^ 42 - 1, 6)"
    by (simp add: eval_simps)
  have c: "\<forall>k<6. 1 + k < length [0x07, 0xFF, 0xFF, 0xFF, 0xFF, 0xFF, 0xFF, 0x7F :: byte] \<and>
      unat ([0x07, 0xFF, 0xFF, 0xFF, 0xFF, 0xFF, 0xFF, 0x7F :: byte] ! (1 + k)) AND 0x80 \<noteq> 0"
  proof (intro allI impI)
    fix k :: nat assume "k < 6"
    then consider "k = 0" | "k = 1" | "k = 2" | "k = 3" | "k = 4" | "k = 5" by linarith
    then show "1 + k < length [0x07, 0xFF, 0xFF, 0xFF, 0xFF, 0xFF, 0xFF, 0x7F :: byte] \<and>
      unat ([0x07, 0xFF, 0xFF, 0xFF, 0xFF, 0xFF, 0xFF, 0x7F :: byte] ! (1 + k)) AND 0x80 \<noteq> 0"
      by cases simp_all
  qed
  from read_varuint_at_most_six_bytes[of "[0x07, 0xFF, 0xFF, 0xFF, 0xFF, 0xFF, 0x7F]" 1 "2 ^ 42 - 1" 6] r
    read_varuint_at_most_six_bytes[of "[0x07, 0xFF, 0xFF, 0xFF, 0xFF, 0xFF, 0xFF, 0x7F]" 1] c
  show ?thesis by simp
qed

text \<open>
  C10: the value the table patcher writes, \<^verbatim>\<open>(1 << (7 * max_n)) - 1\<close>, always fits in
  \<^verbatim>\<open>max_n\<close> bytes: the encoder returns \<^verbatim>\<open>max_n\<close> bytes for it and never raises, so no
  table entry, table loop or table section ends with the \<^verbatim>\<open>value does not fit\<close> error.
\<close>

theorem table_patch_value_always_fits:
  "encode_varuint_fixed_width (push_bit (7 * max_n) 1 - 1) max_n
     = Inr (varuint_bytes max_n (2 ^ (7 * max_n) - 1)) \<and>
   length (varuint_bytes max_n (2 ^ (7 * max_n) - 1)) = max_n \<and>
   table_entry data payload_end table_idx s \<noteq> Inl ValueDoesNotFit \<and>
   table_loop data payload_end table_idx k s \<noteq> Inl ValueDoesNotFit \<and>
   table_section data payload_off payload_end ext patched \<noteq> Inl ValueDoesNotFit"
proof -
  have "encode_varuint_fixed_width (push_bit (7 * max_n) 1 - 1) max_n
     = Inr (varuint_bytes max_n (2 ^ (7 * max_n) - 1))"
    by (simp add: max_value_fits push_bit_eq_mult)
  moreover have "table_section data payload_off payload_end ext patched \<noteq> Inl ValueDoesNotFit"
    by (auto simp add: table_loop_fits table_section_def split: sum.splits)
  ultimately show ?thesis
    by (simp add: table_entry_fits table_loop_fits)
qed

section \<open>Claims about the driver\<close>

text \<open>
  C1, as stated: after a candidate fails, the driver goes on to every remaining candidate.
  The \<^verbatim>\<open>except\<close> branch of \<^verbatim>\<open>main\<close> returns 2 inside the loop. With an empty (hence
  invalid) first file and a patchable second one, the run reports the first, leaves the
  second untouched and prints nothing about it, although processing the second alone
  patches it.
\<close>

theorem later_candidate_not_processed:
  "main [''a_bg.wasm'' \<mapsto> [], ''c_bg.wasm'' \<mapsto> tight_table_module] [''a_bg.wasm'', ''c_bg.wasm'']
     = ([''a_bg.wasm'' \<mapsto> [], ''c_bg.wasm'' \<mapsto> tight_table_module],
        [ErrorLine ''a_bg.wasm'' (NotAWasmModule ''a_bg.wasm'')], 2) \<and>
   main [''a_bg.wasm'' \<mapsto> [], ''c_bg.wasm'' \<mapsto> tight_table_module] [''c_bg.wasm'']
     = ([''a_bg.wasm'' \<mapsto> [], ''c_bg.wasm'' \<mapsto> widened_table_module],
        [PatchedLine ''c_bg.wasm''], 0)"
  by (simp add: eval_simps module_defs)

text \<open>
  C1, amended: if the candidates before \<open>c\<close> are processed without error and processing
  \<open>c\<close> fails with the error \<open>e\<close>, the driver prints the \<^verbatim>\<open>patched:\<close> lines of the
  candidates before \<open>c\<close>, reports the path \<open>c\<close> and the error \<open>e\<close> as its last line, and
  returns exit status 2 at once: the files are those left by the failing call, and the
  candidates after \<open>c\<close> are not attempted (the result does not depend on them).
\<close>

theorem driver_stops_at_first_failure:
  assumes "\<not> (\<exists>p e. (p, Inl e) \<in> set (outcomes fs pre))"
    and "patch_wasm_file (store_after fs pre) c = (fs', Inl e)"
  shows "main fs (pre @ c # post) = (fs', patched_lines (outcomes fs pre) @ [ErrorLine c e], 2)"
  using main_loop_fail[OF assms, of post False "[]"] by (simp add: main_def)

theorem driver_stops_at_first_failure_witness:
  "outcomes three_candidates [''a_bg.wasm''] = [(''a_bg.wasm'', Inr True)] \<and>
   patch_wasm_file (store_after three_candidates [''a_bg.wasm'']) ''b_bg.wasm''
     = ([''b_bg.wasm'' \<mapsto> [], ''c_bg.wasm'' \<mapsto> tight_table_module, ''a_bg.wasm'' \<mapsto> widened_table_module],
        Inl (NotAWasmModule ''b_bg.wasm'')) \<and>
   main three_candidates ([''a_bg.wasm''] @ ''b_bg.wasm'' # [''c_bg.wasm''])
     = ([''b_bg.wasm'' \<mapsto> [], ''c_bg.wasm'' \<mapsto> tight_table_module, ''a_bg.wasm'' \<mapsto> widened_table_module],
        [PatchedLine ''a_bg.wasm'', ErrorLine ''b_bg.wasm'' (NotAWasmModule ''b_bg.wasm'')], 2)"
proof -
  have o: "outcomes three_candidates [''a_bg.wasm''] = [(''a_bg.wasm'', Inr True)]"
    by (simp add: eval_simps module_defs three_candidates_def)
  have p: "patch_wasm_file (store_after three_candidates [''a_bg.wasm'']) ''b_bg.wasm''
     = ([''b_bg.wasm'' \<mapsto> [], ''c_bg.wasm'' \<mapsto> tight_table_module, ''a_bg.wasm'' \<mapsto> widened_table_module],
        Inl (NotAWasmModule ''b_bg.wasm''))"
    by (simp add: eval_simps module_defs three_candidates_def)
  have n: "\<not> (\<exists>p e. (p, Inl e) \<in> set (outcomes three_candidates [''a_bg.wasm'']))"
    unfolding o by simp
  from driver_stops_at_first_failure[OF n p, of "[''c_bg.wasm'']"] o p
  show ?thesis by simp
qed

text \<open>
  C4, as stated: "no changes needed" has an exit status of its own, different from the
  status of a run that patched something. Both runs end in \<^verbatim>\<open>return 0\<close>; only the
  printed line differs.
\<close>

theorem no_change_status_equals_success_status:
  "main [''a_bg.wasm'' \<mapsto> roomy_table_module] [''a_bg.wasm'']
     = ([''a_bg.wasm'' \<mapsto> roomy_table_module], [NoChangesNeeded], 0) \<and>
   main [''a_bg.wasm'' \<mapsto> tight_table_module] [''a_bg.wasm'']
     = ([''a_bg.wasm'' \<mapsto> widened_table_module], [PatchedLine ''a_bg.wasm''], 0)"
  by (simp add: eval_simps module_defs)

text \<open>
  C4, amended: the exit status takes two values. It is 2 exactly when processing some
  candidate fails, and 0 otherwise, whether a patch was applied or not. The line
  \<^verbatim>\<open>no changes needed\<close> is printed exactly when no candidate fails and none is patched;
  a run without failure leaves the files of the last candidate's call, prints the
  \<^verbatim>\<open>patched:\<close> lines and, if there is none, that notice, and returns 0.
\<close>

theorem exit_status_is_two_or_zero:
  "exit_status (main fs candidates) =
     (if \<exists>p e. (p, Inl e) \<in> set (outcomes fs candidates) then 2 else 0) \<and>
   (NoChangesNeeded \<in> set (printed (main fs candidates))) =
     (\<not> (\<exists>p e. (p, Inl e) \<in> set (outcomes fs candidates)) \<and>
      \<not> (\<exists>p. (p, Inr True) \<in> set (outcomes fs candidates))) \<and>
   (\<not> (\<exists>p e. (p, Inl e) \<in> set (outcomes fs candidates)) \<longrightarrow>
      main fs candidates =
        (store_after fs candidates,
         (if \<exists>p. (p, Inr True) \<in> set (outcomes fs candidates)
          then patched_lines (outcomes fs candidates)
          else patched_lines (outcomes fs candidates) @ [NoChangesNeeded]), 0))"
proof (cases "\<exists>p e. (p, Inl e) \<in> set (outcomes fs candidates)")
  case True
  from first_failure[OF True] obtain pre c post fs' e where
    h: "candidates = pre @ c # post" "\<not> (\<exists>p e. (p, Inl e) \<in> set (outcomes fs pre))"
       "patch_wasm_file (store_after fs pre) c = (fs', Inl e)" by blast
  from main_loop_fail[OF h(2,3), of post False "[]"] h(1)
  have "main fs candidates = (fs', patched_lines (outcomes fs pre) @ [ErrorLine c e], 2)"
    by (simp add: main_def)
  with True show ?thesis
    by (simp add: exit_status_def printed_def patched_lines_no_notice)
next
  case False
  from main_loop_ok[OF False, of False "[]"] False show ?thesis
    by (simp add: main_def exit_status_def printed_def patched_lines_no_notice)
qed

theorem exit_status_is_two_or_zero_witness:
  "\<not> (\<exists>p e. (p, Inl e) \<in> set (outcomes [''a_bg.wasm'' \<mapsto> tight_table_module] [''a_bg.wasm''])) \<and>
   outcomes [''a_bg.wasm'' \<mapsto> tight_table_module] [''a_bg.wasm''] = [(''a_bg.wasm'', Inr True)] \<and>
   main [''a_bg.wasm'' \<mapsto> tight_table_module] [''a_bg.wasm'']
     = ([''a_bg.wasm'' \<mapsto> widened_table_module], [PatchedLine ''a_bg.wasm''], 0) \<and>
   outcomes [''a_bg.wasm'' \<mapsto> roomy_table_module] [''a_bg.wasm''] = [(''a_bg.wasm'', Inr False)] \<and>
   main [''a_bg.wasm'' \<mapsto> roomy_table_module] [''a_bg.wasm'']
     = ([''a_bg.wasm'' \<mapsto> roomy_table_module], [NoChangesNeeded], 0)"
proof -
  have o: "outcomes [''a_bg.wasm'' \<mapsto> tight_table_module] [''a_bg.wasm''] = [(''a_bg.wasm'', Inr True)]"
    "outcomes [''a_bg.wasm'' \<mapsto> roomy_table_module] [''a_bg.wasm''] = [(''a_bg.wasm'', Inr False)]"
    "store_after [''a_bg.wasm'' \<mapsto> tight_table_module] [''a_bg.wasm''] = [''a_bg.wasm'' \<mapsto> widened_table_module]"
    "store_after [''a_bg.wasm'' \<mapsto> roomy_table_module] [''a_bg.wasm''] = [''a_bg.wasm'' \<mapsto> roomy_table_module]"
    by (simp_all add: eval_simps module_defs)
  have n: "\<not> (\<exists>p e. (p, Inl e) \<in> set (outcomes [''a_bg.wasm'' \<mapsto> tight_table_module] [''a_bg.wasm'']))"
    "\<not> (\<exists>p e. (p, Inl e) \<in> set (outcomes [''a_bg.wasm'' \<mapsto> roomy_table_module] [''a_bg.wasm'']))"
    unfolding o by simp_all
  note t1 = exit_status_is_two_or_zero[of "[''a_bg.wasm'' \<mapsto> tight_table_module]" "[''a_bg.wasm'']"]
  note t2 = exit_status_is_two_or_zero[of "[''a_bg.wasm'' \<mapsto> roomy_table_module]" "[''a_bg.wasm'']"]
  from t1[THEN conjunct2, THEN conjunct2, THEN mp, OF n(1)]
    t2[THEN conjunct2, THEN conjunct2, THEN mp, OF n(2)] o n
  show ?thesis by simp
qed

section \<open>Claims about the walker and the section patchers\<close>

text \<open>
  C9: when the walker reaches an export section (id 7) while no externref table index is
  recorded, the iteration only moves the cursor to the end of the payload: data, patched
  flag and stored files stay as they are, and this holds whatever bytes the payload holds,
  so the payload is not read. The witness is a module whose export section precedes the
  table section and whose export payload would raise if it were parsed.
\<close>

theorem export_section_skipped_without_index:
  assumes "off < length data" and "unat (data ! off) = 7"
    and "read_varuint data (off + 1) = Inr (section_size, n)"
    and "off + 1 + n + section_size \<le> length data"
  shows "walk_step path fs (data, off, patched, None)
           = (fs, Inr (data, off + 1 + n + section_size, patched, None)) \<and>
         (\<forall>payload. length payload = section_size \<longrightarrow>
            walk_step path fs
              (assign_slice data (off + 1 + n) (off + 1 + n + section_size) payload, off, patched, None)
            = (fs, Inr (assign_slice data (off + 1 + n) (off + 1 + n + section_size) payload,
                        off + 1 + n + section_size, patched, None)))"
proof (intro conjI allI impI)
  show "walk_step path fs (data, off, patched, None)
           = (fs, Inr (data, off + 1 + n + section_size, patched, None))"
    using assms by (simp add: walk_step_def byte_at_def)
next
  fix payload :: bytes
  assume len: "length payload = section_size"
  define data' where "data' = assign_slice data (off + 1 + n) (off + 1 + n + section_size) payload"
  have l: "length data' = length data"
    using assms(4) len by (simp add: data'_def length_assign_slice)
  have nth: "data' ! k = data ! k" if "k < off + 1 + n" for k
    using that assms(4) unfolding data'_def by (intro nth_assign_slice_before) simp_all
  have r: "read_varuint data' (off + 1) = Inr (section_size, n)"
    using assms(3)
  proof (rule read_varuint_local)
    show "off + 1 + n \<le> length data'" using l assms(4) by simp
    show "data' ! (off + 1 + k) = data ! (off + 1 + k)" if "k < n" for k
      using that by (intro nth) simp
  qed
  have "data' ! off = data ! off" by (intro nth) simp
  then show "walk_step path fs (data', off, patched, None)
      = (fs, Inr (data', off + 1 + n + section_size, patched, None))"
    using assms(1,2,4) r l by (simp add: walk_step_def byte_at_def)
qed

theorem export_section_skipped_without_index_witness:
  "(8::nat) < length export_first_module \<and> unat (export_first_module ! 8) = 7 \<and>
   read_varuint export_first_module (8 + 1) = Inr (2, 1) \<and>
   8 + 1 + 1 + 2 \<le> length export_first_module \<and>
   export_section export_first_module 10 0 False = Inl IndexError \<and>
   walk_step ''a_bg.wasm'' Map.empty (export_first_module, 8, False, None)
     = (Map.empty, Inr (export_first_module, 8 + 1 + 1 + 2, False, None)) \<and>
   patch_wasm_file [''a_bg.wasm'' \<mapsto> export_first_module] ''a_bg.wasm''
     = ([''a_bg.wasm'' \<mapsto> wasm_header @ [0x07, 0x02, 0x01, 0x7F] @ [0x04, 0x05, 0x01, 0x6F, 0x01, 0x04, 0x7F]],
        Inr True)"
proof -
  have h: "(8::nat) < length export_first_module" "unat (export_first_module ! 8) = 7"
    "read_varuint export_first_module (8 + 1) = Inr (2, 1)"
    "8 + 1 + 1 + 2 \<le> length export_first_module"
    by (simp_all add: eval_simps module_defs export_first_module_def)
  have e: "export_section export_first_module 10 0 False = Inl IndexError"
    by (simp add: eval_simps module_defs export_first_module_def)
  have f: "patch_wasm_file [''a_bg.wasm'' \<mapsto> export_first_module] ''a_bg.wasm''
     = ([''a_bg.wasm'' \<mapsto> wasm_header @ [0x07, 0x02, 0x01, 0x7F] @ [0x04, 0x05, 0x01, 0x6F, 0x01, 0x04, 0x7F]],
        Inr True)"
    by (simp add: eval_simps module_defs export_first_module_def)
  from export_section_skipped_without_index[OF h, of "''a_bg.wasm''" Map.empty False] h e f
  show ?thesis by simp
qed



text \<open>
  C3, as stated: when \<^verbatim>\<open>patch_wasm_file\<close> aborts, the stored file is unchanged, even if an
  earlier section had been patched. The write happens at the end of every table or export
  section once \<^verbatim>\<open>patched\<close> is set, so a module whose table section is patched and whose
  next section header is invalid is stored patched before the error is raised.
\<close>

theorem abort_after_an_earlier_write:
  "patch_wasm_file [''a_bg.wasm'' \<mapsto> broken_tail_module] ''a_bg.wasm''
     = ([''a_bg.wasm'' \<mapsto> widened_table_module @ [0x01, 0x05]],
        Inl (InvalidSectionSize ''a_bg.wasm'')) \<and>
   broken_tail_module \<noteq> widened_table_module @ [0x01, 0x05]"
  by (simp add: eval_simps module_defs broken_tail_module_def)

text \<open>
  C3, amended: the iteration in which the error is raised writes nothing. So when
  \<^verbatim>\<open>patch_wasm_file\<close> aborts, the stored files are either all unchanged, or the file holds
  the buffer as it stood at the start of the failing section, with \<^verbatim>\<open>patched\<close> set: the
  patches of the sections completed before, none of the failing one, and the original
  length. In particular the file is unchanged when no earlier section applied a patch.
\<close>

theorem abort_keeps_completed_sections_only:
  "(walk_step path fs st = (fs1, Inl e) \<longrightarrow> fs1 = fs) \<and>
   (patch_wasm_file fs path = (fs', Inl e') \<longrightarrow>
      fs' = fs \<or>
      (\<exists>data0 data1 off1 ext1.
          fs path = Some data0 \<and> length data1 = length data0 \<and>
          walk_step path fs' (data1, off1, True, ext1) = (fs', Inl e') \<and>
          fs' = fs(path \<mapsto> data1)))"
proof (intro conjI impI)
  assume "walk_step path fs st = (fs1, Inl e)"
  then show "fs1 = fs" by (rule walk_step_error_no_write)
next
  assume a: "patch_wasm_file fs path = (fs', Inl e')"
  show "fs' = fs \<or>
      (\<exists>data0 data1 off1 ext1.
          fs path = Some data0 \<and> length data1 = length data0 \<and>
          walk_step path fs' (data1, off1, True, ext1) = (fs', Inl e') \<and>
          fs' = fs(path \<mapsto> data1))"
  proof (cases "fs path")
    case None
    with a show ?thesis by (simp add: patch_wasm_file_def)
  next
    case (Some data0)
    show ?thesis
    proof (cases "length data0 < 8 \<or> take 4 data0 \<noteq> [0x00, 0x61, 0x73, 0x6D]")
      case True
      with a Some show ?thesis by (auto simp add: patch_wasm_file_def)
    next
      case False
      with a Some have "walk path fs (data0, 8, False, None) = (fs', Inl e')"
        by (auto simp add: patch_wasm_file_def)
      from walk_abort[OF this, of fs] obtain data1 off1 patched1 ext1 where
        st: "walk_step path fs' (data1, off1, patched1, ext1) = (fs', Inl e')"
        and len: "length data1 = length data0"
        and d: "fs' = fs \<or> (patched1 \<and> fs' = fs(path \<mapsto> data1))"
        by auto
      show ?thesis
      proof (cases "fs' = fs")
        case True
        then show ?thesis by simp
      next
        case False
        with d have "patched1 = True" and u: "fs' = fs(path \<mapsto> data1)" by simp_all
        with st have "walk_step path fs' (data1, off1, True, ext1) = (fs', Inl e')" by simp
        with len Some u have "\<exists>data0 data1 off1 ext1.
          fs path = Some data0 \<and> length data1 = length data0 \<and>
          walk_step path fs' (data1, off1, True, ext1) = (fs', Inl e') \<and>
          fs' = fs(path \<mapsto> data1)" by blast
        then show ?thesis by (rule disjI2)
      qed
    qed
  qed
qed

theorem abort_keeps_completed_sections_only_witness:
  "walk_step ''a_bg.wasm'' [''a_bg.wasm'' \<mapsto> widened_table_module @ [0x01, 0x05]]
      (widened_table_module @ [0x01, 0x05], 15, True, Some 0)
     = ([''a_bg.wasm'' \<mapsto> widened_table_module @ [0x01, 0x05]], Inl (InvalidSectionSize ''a_bg.wasm'')) \<and>
   patch_wasm_file [''a_bg.wasm'' \<mapsto> broken_tail_module] ''a_bg.wasm''
     = ([''a_bg.wasm'' \<mapsto> widened_table_module @ [0x01, 0x05]],
        Inl (InvalidSectionSize ''a_bg.wasm'')) \<and>
   length (widened_table_module @ [0x01, 0x05]) = length broken_tail_module \<and>
   patch_wasm_file [''a_bg.wasm'' \<mapsto> [0x00, 0x61, 0x73, 0x6D, 0x01, 0x00, 0x00, 0x00, 0x04, 0x05]] ''a_bg.wasm''
     = ([''a_bg.wasm'' \<mapsto> [0x00, 0x61, 0x73, 0x6D, 0x01, 0x00, 0x00, 0x00, 0x04, 0x05]],
        Inl (InvalidSectionSize ''a_bg.wasm''))"
proof -
  have s: "walk_step ''a_bg.wasm'' [''a_bg.wasm'' \<mapsto> widened_table_module @ [0x01, 0x05]]
      (widened_table_module @ [0x01, 0x05], 15, True, Some 0)
     = ([''a_bg.wasm'' \<mapsto> widened_table_module @ [0x01, 0x05]], Inl (InvalidSectionSize ''a_bg.wasm''))"
    by (simp add: eval_simps module_defs)
  have p: "patch_wasm_file [''a_bg.wasm'' \<mapsto> broken_tail_module] ''a_bg.wasm''
     = ([''a_bg.wasm'' \<mapsto> widened_table_module @ [0x01, 0x05]],
        Inl (InvalidSectionSize ''a_bg.wasm''))"
    by (simp add: eval_simps module_defs broken_tail_module_def)
  have l: "length (widened_table_module @ [0x01, 0x05]) = length broken_tail_module"
    by (simp add: module_defs broken_tail_module_def)
  have q: "patch_wasm_file [''a_bg.wasm'' \<mapsto> [0x00, 0x61, 0x73, 0x6D, 0x01, 0x00, 0x00, 0x00, 0x04, 0x05]] ''a_bg.wasm''
     = ([''a_bg.wasm'' \<mapsto> [0x00, 0x61, 0x73, 0x6D, 0x01, 0x00, 0x00, 0x00, 0x04, 0x05]],
        Inl (InvalidSectionSize ''a_bg.wasm''))"
    by (simp add: eval_simps)
  have c: ?thesis using s p l q by simp
  from conjunct1[OF abort_keeps_completed_sections_only, THEN mp, OF s]
    conjunct2[OF abort_keeps_completed_sections_only, THEN mp, OF p]
  show ?thesis by - (rule c)
qed

text \<open>
  C2: the claim is that, when the externref table index does not fit in the byte width
  of the export's index field, this one rewrite is skipped silently, the file is not
  treated as failed and processing goes on. The comment at the call says the same
  (\<^verbatim>\<open>Only patch in-place when the varuint width stays the same\<close>), and the encoder
  \<^verbatim>\<open>assumes value fits\<close>. The script never tests the width before it calls the encoder:
  on the module with 129 tables (index 128 against a one-byte index field) the encoder
  raises, \<^verbatim>\<open>patch_wasm_file\<close> aborts with \<^verbatim>\<open>value does not fit in fixed width\<close>, and
  \<^verbatim>\<open>main\<close> reports the file as failed and returns 2.
\<close>

theorem oversized_index_fails_the_file:
  "patch_wasm_file [''a_bg.wasm'' \<mapsto> many_tables_module] ''a_bg.wasm''
     = ([''a_bg.wasm'' \<mapsto> many_tables_module], Inl ValueDoesNotFit) \<and>
   main [''a_bg.wasm'' \<mapsto> many_tables_module] [''a_bg.wasm'']
     = ([''a_bg.wasm'' \<mapsto> many_tables_module], [ErrorLine ''a_bg.wasm'' ValueDoesNotFit], 2)"
proof -
  have "patch_wasm_file [''a_bg.wasm'' \<mapsto> many_tables_module] ''a_bg.wasm''
     = ([''a_bg.wasm'' \<mapsto> many_tables_module], Inl ValueDoesNotFit)"
    using many_tables_magic by (simp add: patch_wasm_file_def many_tables_walk)
  then show ?thesis by (simp add: main_def)
qed

text \<open>
  C8, as stated: a second run on a file that the first run patched finds every patch
  condition false, modifies nothing and returns false. The table patch writes
  \<open>2^(7w) - 1\<close> into a maximum field of \<open>w\<close> bytes, and that value can still be below
  the initial size plus 4: with initial size 124 and a one-byte maximum the first run
  writes 127, and the second run, on the patched file, finds \<open>127 < 128\<close>, writes the same
  byte again and returns true.
\<close>

theorem second_run_reports_a_patch_again:
  "patch_wasm_file [''a_bg.wasm'' \<mapsto> full_table_module] ''a_bg.wasm''
     = ([''a_bg.wasm'' \<mapsto> full_table_module_patched], Inr True) \<and>
   patch_wasm_file [''a_bg.wasm'' \<mapsto> full_table_module_patched] ''a_bg.wasm''
     = ([''a_bg.wasm'' \<mapsto> full_table_module_patched], Inr True)"
  by (simp add: eval_simps module_defs full_table_module_def full_table_module_patched_def)

text \<open>
  C8, amended: if the first run succeeds on a module whose table and export sections are
  closed, a second run on the files the first run left succeeds and modifies nothing: it
  leaves every stored file as it is. It returns true only if the first run did; it need
  not return false.
\<close>

theorem second_run_leaves_file_unchanged:
  assumes "fs path = Some data0"
    and "patch_wasm_file fs path = (fs', Inr b)"
    and "sections_closed path fs (data0, 8, False, None)"
  shows "\<exists>b2. patch_wasm_file fs' path = (fs', Inr b2) \<and> (b2 \<longrightarrow> b)"
proof -
  from assms(1,2) have hd: "\<not> (length data0 < 8 \<or> take 4 data0 \<noteq> [0x00, 0x61, 0x73, 0x6D])"
    and w: "walk path fs (data0, 8, False, None) = (fs', Inr b)"
    by (auto simp add: patch_wasm_file_def split: if_splits)
  from walk_again[OF w assms(3) assms(1)] obtain F where
    F: "fs' path = Some F" "length F = length data0" "\<forall>j<8. F ! j = data0 ! j"
    and again: "\<And>fs2 pt2. fs2 path = Some F \<Longrightarrow> pt2 \<longrightarrow> False \<Longrightarrow>
        \<exists>b2. walk path fs2 (F, 8, pt2, None) = (fs2, Inr b2) \<and> (b2 \<longrightarrow> b)"
    by blast
  from hd have l8: "8 \<le> length data0" by simp
  have "take 4 F = take 4 data0"
    using F(2,3) l8 by (intro nth_equalityI) simp_all
  with hd F(2) have hdF: "\<not> (length F < 8 \<or> take 4 F \<noteq> [0x00, 0x61, 0x73, 0x6D])" by simp
  from again[of fs' False, OF F(1)] obtain b2 where
    "walk path fs' (F, 8, False, None) = (fs', Inr b2)" "b2 \<longrightarrow> b" by auto
  with F(1) hdF show ?thesis by (auto simp add: patch_wasm_file_def)
qed

theorem second_run_leaves_file_unchanged_witness:
  "[''a_bg.wasm'' \<mapsto> table_and_export_module] ''a_bg.wasm'' = Some table_and_export_module \<and>
   patch_wasm_file [''a_bg.wasm'' \<mapsto> table_and_export_module] ''a_bg.wasm''
     = ([''a_bg.wasm'' \<mapsto> table_and_export_patched], Inr True) \<and>
   sections_closed ''a_bg.wasm'' [''a_bg.wasm'' \<mapsto> table_and_export_module]
     (table_and_export_module, 8, False, None) \<and>
   patch_wasm_file [''a_bg.wasm'' \<mapsto> table_and_export_patched] ''a_bg.wasm''
     = ([''a_bg.wasm'' \<mapsto> table_and_export_patched], Inr False)"
proof -
  have h0: "[''a_bg.wasm'' \<mapsto> table_and_export_module] ''a_bg.wasm'' = Some table_and_export_module"
    by simp
  have h1: "patch_wasm_file [''a_bg.wasm'' \<mapsto> table_and_export_module] ''a_bg.wasm''
     = ([''a_bg.wasm'' \<mapsto> table_and_export_patched], Inr True)"
    by (simp add: eval_simps module_defs table_and_export_module_def table_and_export_patched_def)
  have h2: "sections_closed ''a_bg.wasm'' [''a_bg.wasm'' \<mapsto> table_and_export_module]
     (table_and_export_module, 8, False, None)"
    by (simp add: eval_simps module_defs sections_closed.simps section_closed_def
        table_and_export_module_def)
  have h3: "patch_wasm_file [''a_bg.wasm'' \<mapsto> table_and_export_patched] ''a_bg.wasm''
     = ([''a_bg.wasm'' \<mapsto> table_and_export_patched], Inr False)"
    by (simp add: eval_simps module_defs table_and_export_patched_def)
  from second_run_leaves_file_unchanged[OF h0 h1 h2] h0 h1 h2 h3 show ?thesis by simp
qed

end
